theory Spec2Isabelle
  imports Main
begin

unbundle bit_operations_syntax

section \<open>Python values and faults\<close>

text \<open>
  The exceptions that the modelled code can raise.  \<open>NoProgress\<close> stands for a
  \<open>while\<close> loop that would never leave its body (see \<open>ray_loop\<close>).
\<close>

datatype error = IndexError | KeyError | AssertionError | TypeError | NoProgress

type_synonym pos = "int \<times> int"

text \<open>
  Subscripts of a Python list of length \<open>n\<close>: the indices \<open>0 .. n - 1\<close> name
  the slots from the front, \<open>- n .. - 1\<close> the same slots from the back, and any
  other index raises \<open>IndexError\<close>.
\<close>

definition list_slot :: "nat \<Rightarrow> int \<Rightarrow> nat option" where
  "list_slot n i =
     (if 0 \<le> i \<and> i < int n then Some (nat i)
      else if i < 0 \<and> 0 \<le> i + int n then Some (nat (i + int n))
      else None)"

definition py_index :: "'a list \<Rightarrow> int \<Rightarrow> error + 'a" where
  "py_index xs i =
     (case list_slot (length xs) i of None \<Rightarrow> Inl IndexError | Some k \<Rightarrow> Inr (xs ! k))"

definition py_setitem :: "'a list \<Rightarrow> int \<Rightarrow> 'a \<Rightarrow> error + 'a list" where
  "py_setitem xs i v =
     (case list_slot (length xs) i of None \<Rightarrow> Inl IndexError | Some k \<Rightarrow> Inr (xs[k := v]))"

text \<open>\<open>range(n)\<close> for an integer \<open>n\<close>: empty when \<open>n \<le> 0\<close>.\<close>

definition py_range :: "int \<Rightarrow> int list" where
  "py_range n = map int [0..<nat n]"

text \<open>Dictionary subscription \<open>d[k]\<close>: a missing key raises \<open>KeyError\<close>.\<close>

definition dict_get :: "('k \<rightharpoonup> 'v) \<Rightarrow> 'k \<Rightarrow> error + 'v" where
  "dict_get d k = (case d k of None \<Rightarrow> Inl KeyError | Some v \<Rightarrow> Inr v)"

section \<open>board.py: the board state\<close>

definition PLAYER1 :: int where "PLAYER1 = 1"
definition PLAYER2 :: int where "PLAYER2 = 2"
definition BOX_CLEAR :: int where "BOX_CLEAR = 4"
definition BOX_BLOCK :: int where "BOX_BLOCK = 8"
definition BOX_BLOCKED_MASK :: int where "BOX_BLOCKED_MASK = 16"

text \<open>
  The attributes of a \<open>Board\<close> object, as a value.  \<open>players_position\<close> is the
  dictionary from a player to its position, \<open>None\<close> until that player has moved.
\<close>

record board =
  rows :: int
  columns :: int
  board_list :: "int list"
  active_player :: int
  inactive_player :: int
  players_position :: "int \<rightharpoonup> pos option"

text \<open>\<open>clear_board\<close>: \<open>[BOX_CLEAR for _ in range(rows * columns)]\<close>.\<close>

definition clear_board :: "board \<Rightarrow> board" where
  "clear_board b = b\<lparr>board_list := map (\<lambda>_. BOX_CLEAR) (py_range (rows b * columns b))\<rparr>"

text \<open>
  \<open>Board.__init__\<close>.  The constructor has no statement that can raise; its result is
  a sum only so that "raises a fault" can be stated about it.
\<close>

definition Board_init :: "int \<Rightarrow> int \<Rightarrow> error + board" where
  "Board_init r c =
     Inr (clear_board
       \<lparr>rows = r, columns = c, board_list = [],
        active_player = PLAYER1, inactive_player = PLAYER2,
        players_position = [PLAYER1 \<mapsto> None, PLAYER2 \<mapsto> None]\<rparr>)"

text \<open>\<open>player_pos\<close>: the \<open>assert\<close> fails on a player that is not a key.\<close>

definition player_pos :: "board \<Rightarrow> int \<Rightarrow> error + pos option" where
  "player_pos b player =
     (case players_position b player of
        None \<Rightarrow> Inl AssertionError
      | Some v \<Rightarrow> dict_get (players_position b) player)"

definition offset :: "board \<Rightarrow> int \<Rightarrow> int \<Rightarrow> int" where
  "offset b x y = x + y * columns b"

definition box_blocked :: "board \<Rightarrow> int \<Rightarrow> int \<Rightarrow> error + bool" where
  "box_blocked b x y =
     (case py_index (board_list b) (offset b x y) of
        Inl e \<Rightarrow> Inl e
      | Inr c \<Rightarrow> Inr ((c AND BOX_BLOCKED_MASK) = BOX_BLOCKED_MASK))"

definition block_box :: "board \<Rightarrow> int \<Rightarrow> int \<Rightarrow> int \<Rightarrow> error + board" where
  "block_box b x y board_state =
     (case py_setitem (board_list b) (offset b x y) (board_state OR BOX_BLOCKED_MASK) of
        Inl e \<Rightarrow> Inl e
      | Inr l \<Rightarrow> Inr (b\<lparr>board_list := l\<rparr>))"

text \<open>\<open>get_free_boxes\<close>: the inner loop over \<open>x\<close> and the outer loop over \<open>y\<close>.\<close>

fun free_row :: "board \<Rightarrow> int \<Rightarrow> int list \<Rightarrow> pos list \<Rightarrow> error + pos list" where
  "free_row b y [] moves = Inr moves"
| "free_row b y (x # xs) moves =
     (case box_blocked b x y of
        Inl e \<Rightarrow> Inl e
      | Inr blocked \<Rightarrow> free_row b y xs (if \<not> blocked then moves @ [(x, y)] else moves))"

fun free_rows :: "board \<Rightarrow> int list \<Rightarrow> pos list \<Rightarrow> error + pos list" where
  "free_rows b [] moves = Inr moves"
| "free_rows b (y # ys) moves =
     (case free_row b y (py_range (columns b)) moves of
        Inl e \<Rightarrow> Inl e
      | Inr moves' \<Rightarrow> free_rows b ys moves')"

definition get_free_boxes :: "board \<Rightarrow> error + pos list" where
  "get_free_boxes b = free_rows b (py_range (rows b)) []"

definition dirs_deltas :: "(int \<times> int) list" where
  "dirs_deltas = [(-1, -1), (0, -1), (1, -1), (1, 0), (1, 1), (0, 1), (-1, 1), (-1, 0)]"

text \<open>
  The \<open>while\<close> loop of \<open>get_legal_moves\<close> for one directional delta, started at
  \<open>(x, y)\<close> with the moves collected so far.  The loop makes progress for every delta
  but \<open>(0, 0)\<close>, which \<open>dirs_deltas\<close> does not contain; there the source would
  append the same free cell for ever, and the model returns \<open>NoProgress\<close>.
\<close>

function ray_loop :: "board \<Rightarrow> int \<Rightarrow> int \<Rightarrow> int \<Rightarrow> int \<Rightarrow> pos list \<Rightarrow> error + pos list" where
  "ray_loop b dx dy x y moves =
     (if dx = 0 \<and> dy = 0 then Inl NoProgress
      else if (0 \<le> x + dx \<and> x + dx < columns b) \<and> (0 \<le> y + dy \<and> y + dy < rows b) then
        (case box_blocked b (x + dx) (y + dy) of
           Inl e \<Rightarrow> Inl e
         | Inr blocked \<Rightarrow>
             if blocked then Inr moves
             else ray_loop b dx dy (x + dx) (y + dy) (moves @ [(x + dx, y + dy)]))
      else Inr moves)"
  by pat_completeness auto
termination
  by (relation "measure (\<lambda>(b, dx, dy, x, y, moves).
        nat (if 0 < dx then columns b - x else if dx < 0 then x + 1
             else if 0 < dy then rows b - y else y + 1))") auto

declare ray_loop.simps [simp del]

text \<open>The \<open>for dx, dy in dirs_deltas\<close> loop.\<close>

fun rays :: "board \<Rightarrow> pos \<Rightarrow> (int \<times> int) list \<Rightarrow> pos list \<Rightarrow> error + pos list" where
  "rays b loc [] moves = Inr moves"
| "rays b loc (d # ds) moves =
     (case ray_loop b (fst d) (snd d) (fst loc) (snd loc) moves of
        Inl e \<Rightarrow> Inl e
      | Inr moves' \<Rightarrow> rays b loc ds moves')"

definition get_legal_moves :: "board \<Rightarrow> int option \<Rightarrow> error + pos list" where
  "get_legal_moves b player =
     (case (case player of
              None \<Rightarrow> dict_get (players_position b) (active_player b)
            | Some p \<Rightarrow> dict_get (players_position b) p) of
        Inl e \<Rightarrow> Inl e
      | Inr None \<Rightarrow> get_free_boxes b
      | Inr (Some loc) \<Rightarrow> rays b loc dirs_deltas [])"

text \<open>
  A position is \<open>in_grid\<close> when it names a cell of the grid, and the cell list is
  \<open>full_list\<close> when it has one entry for each cell, as \<open>clear_board\<close> leaves it.
\<close>

definition in_grid :: "board \<Rightarrow> pos \<Rightarrow> bool" where
  "in_grid b p = (0 \<le> fst p \<and> fst p < columns b \<and> 0 \<le> snd p \<and> snd p < rows b)"

definition full_list :: "board \<Rightarrow> bool" where
  "full_list b = (int (length (board_list b)) = rows b * columns b)"

text \<open>
  \<open>step_to loc d k\<close> is the cell \<open>k\<close> steps of the delta \<open>d\<close> away from
  \<open>loc\<close>.  The way is \<open>clear_to\<close> that cell when each of the \<open>k\<close> cells
  from the first step on is a cell of the grid and is not blocked, and a cell is on a
  \<open>clear_run\<close> from \<open>loc\<close> when one of the eight deltas leads to it that way.
\<close>

definition step_to :: "pos \<Rightarrow> int \<times> int \<Rightarrow> int \<Rightarrow> pos" where
  "step_to loc d k = (fst loc + k * fst d, snd loc + k * snd d)"

definition clear_to :: "board \<Rightarrow> pos \<Rightarrow> int \<times> int \<Rightarrow> int \<Rightarrow> bool" where
  "clear_to b loc d k =
     (\<forall>j. 1 \<le> j \<and> j \<le> k \<longrightarrow>
        in_grid b (step_to loc d j)
        \<and> box_blocked b (fst (step_to loc d j)) (snd (step_to loc d j)) = Inr False)"

definition clear_run :: "board \<Rightarrow> pos \<Rightarrow> pos \<Rightarrow> bool" where
  "clear_run b loc c =
     (\<exists>d\<in>set dirs_deltas. \<exists>k\<ge>1. c = step_to loc d k \<and> clear_to b loc d k)"

text \<open>
  The number of steps that the grid leaves to a ray from \<open>(x, y)\<close> with a delta of
  \<open>dirs_deltas\<close>: up to the border in the direction of each non-zero component.
\<close>

definition ray_room :: "board \<Rightarrow> int \<Rightarrow> int \<Rightarrow> int \<Rightarrow> int \<Rightarrow> int" where
  "ray_room b dx dy x y =
     (let rx = (if dx = 1 then columns b - 1 - x else x);
          ry = (if dy = 1 then rows b - 1 - y else y)
      in if dx = 0 then ry else if dy = 0 then rx else min rx ry)"

text \<open>
  \<open>make_move\<close>, on the value of the board: the new value of the object, or the fault
  raised before anything was assigned.
\<close>

definition make_move :: "board \<Rightarrow> int \<Rightarrow> int \<Rightarrow> error + board" where
  "make_move b x y =
     (case box_blocked b x y of
        Inl e \<Rightarrow> Inl e
      | Inr blocked \<Rightarrow>
          if blocked then Inl AssertionError
          else
            (let b1 = b\<lparr>players_position :=
                          (players_position b)(active_player b \<mapsto> Some (x, y))\<rparr>
             in case block_box b1 x y (active_player b1) of
                  Inl e \<Rightarrow> Inl e
                | Inr b2 \<Rightarrow>
                    if active_player b2 = PLAYER1
                    then Inr (b2\<lparr>active_player := PLAYER2, inactive_player := PLAYER1\<rparr>)
                    else Inr (b2\<lparr>active_player := PLAYER1, inactive_player := PLAYER2\<rparr>)))"

text \<open>
  \<open>make_move_copy\<close>, on values: \<open>board_copy\<close> is the value that the
  \<open>pickle\<close> round trip reproduces, and the result is the value of the object
  returned.  That the receiver itself keeps its value is a property of the store; it
  is modelled in the section on board objects below.
\<close>

definition make_move_copy :: "board \<Rightarrow> int \<Rightarrow> int \<Rightarrow> error + board" where
  "make_move_copy b x y =
     (let board_copy = b
      in case box_blocked board_copy x y of
           Inl e \<Rightarrow> Inl e
         | Inr blocked \<Rightarrow>
             if blocked then Inl AssertionError
             else
               (let c1 = board_copy\<lparr>players_position :=
                             (players_position board_copy)
                               (active_player board_copy \<mapsto> Some (x, y))\<rparr>
                in case block_box c1 x y (active_player c1) of
                     Inl e \<Rightarrow> Inl e
                   | Inr c2 \<Rightarrow>
                       if active_player c2 = PLAYER1
                       then Inr (c2\<lparr>active_player := PLAYER2, inactive_player := PLAYER1\<rparr>)
                       else Inr (c2\<lparr>active_player := PLAYER1, inactive_player := PLAYER2\<rparr>)))"

text \<open>
  \<open>is_game_over\<close> returns the winning player or \<open>False\<close>; \<open>None\<close> stands for
  \<open>False\<close>.  \<open>not moves\<close> is the test for the empty list.
\<close>

definition is_game_over :: "board \<Rightarrow> error + int option" where
  "is_game_over b =
     (case get_legal_moves b (Some (active_player b)) of
        Inl e \<Rightarrow> Inl e
      | Inr am \<Rightarrow>
          if am = [] then Inr (Some (inactive_player b))
          else (case get_legal_moves b (Some (inactive_player b)) of
                  Inl e \<Rightarrow> Inl e
                | Inr om \<Rightarrow>
                    if om = [] then Inr (Some (active_player b)) else Inr None))"

section \<open>Board objects in a store\<close>

text \<open>
  A \<open>Board\<close> object holds references to a list object and to a dictionary object,
  and \<open>make_move\<close> assigns into both.  The store keeps the three kinds of object
  apart, each under its address; \<open>next_addr\<close> is the first address not in use.
  \<open>board_at\<close> reads the value of the board object at an address, which is what
  \<open>__eq__\<close> compares.
\<close>

type_synonym addr = nat

record board_obj =
  o_rows :: int
  o_columns :: int
  o_board :: addr
  o_active_player :: int
  o_inactive_player :: int
  o_players_position :: addr

record store =
  boards :: "addr \<Rightarrow> board_obj"
  lists :: "addr \<Rightarrow> int list"
  dicts :: "addr \<Rightarrow> (int \<rightharpoonup> pos option)"
  next_addr :: addr

definition board_at :: "store \<Rightarrow> addr \<Rightarrow> board" where
  "board_at s self =
     (let ob = boards s self
      in \<lparr>rows = o_rows ob, columns = o_columns ob,
          board_list = lists s (o_board ob),
          active_player = o_active_player ob, inactive_player = o_inactive_player ob,
          players_position = dicts s (o_players_position ob)\<rparr>)"

definition allocated :: "store \<Rightarrow> addr \<Rightarrow> bool" where
  "allocated s self =
     (self < next_addr s \<and> o_board (boards s self) < next_addr s
      \<and> o_players_position (boards s self) < next_addr s)"

definition box_blocked_s :: "store \<Rightarrow> addr \<Rightarrow> int \<Rightarrow> int \<Rightarrow> error + bool" where
  "box_blocked_s s self x y =
     (let ob = boards s self
      in case py_index (lists s (o_board ob)) (x + y * o_columns ob) of
           Inl e \<Rightarrow> Inl e
         | Inr c \<Rightarrow> Inr ((c AND BOX_BLOCKED_MASK) = BOX_BLOCKED_MASK))"

definition block_box_s :: "store \<Rightarrow> addr \<Rightarrow> int \<Rightarrow> int \<Rightarrow> int \<Rightarrow> error + store" where
  "block_box_s s self x y board_state =
     (let ob = boards s self
      in case py_setitem (lists s (o_board ob)) (x + y * o_columns ob)
                (board_state OR BOX_BLOCKED_MASK) of
           Inl e \<Rightarrow> Inl e
         | Inr l \<Rightarrow> Inr (s\<lparr>lists := (lists s)(o_board ob := l)\<rparr>))"

definition set_position_s :: "store \<Rightarrow> addr \<Rightarrow> int \<Rightarrow> pos \<Rightarrow> store" where
  "set_position_s s self player p =
     (let d = o_players_position (boards s self)
      in s\<lparr>dicts := (dicts s)(d := (dicts s d)(player \<mapsto> Some p))\<rparr>)"

definition set_players_s :: "store \<Rightarrow> addr \<Rightarrow> int \<Rightarrow> int \<Rightarrow> store" where
  "set_players_s s self a i =
     s\<lparr>boards := (boards s)(self := (boards s self)\<lparr>o_active_player := a, o_inactive_player := i\<rparr>)\<rparr>"

definition make_move_s :: "store \<Rightarrow> addr \<Rightarrow> int \<Rightarrow> int \<Rightarrow> error + store" where
  "make_move_s s self x y =
     (case box_blocked_s s self x y of
        Inl e \<Rightarrow> Inl e
      | Inr blocked \<Rightarrow>
          if blocked then Inl AssertionError
          else
            (let s1 = set_position_s s self (o_active_player (boards s self)) (x, y)
             in case block_box_s s1 self x y (o_active_player (boards s1 self)) of
                  Inl e \<Rightarrow> Inl e
                | Inr s2 \<Rightarrow>
                    if o_active_player (boards s2 self) = PLAYER1
                    then Inr (set_players_s s2 self PLAYER2 PLAYER1)
                    else Inr (set_players_s s2 self PLAYER1 PLAYER2)))"

definition pickle_copy :: "store \<Rightarrow> addr \<Rightarrow> store \<times> addr" where
  "pickle_copy s self =
     (let ob = boards s self; n = next_addr s
      in (s\<lparr>boards := (boards s)(n := ob\<lparr>o_board := n, o_players_position := n\<rparr>),
            lists := (lists s)(n := lists s (o_board ob)),
            dicts := (dicts s)(n := dicts s (o_players_position ob)),
            next_addr := Suc n\<rparr>, n))"

definition make_move_copy_s :: "store \<Rightarrow> addr \<Rightarrow> int \<Rightarrow> int \<Rightarrow> error + store \<times> addr" where
  "make_move_copy_s s self x y =
     (let (s0, board_copy) = pickle_copy s self
      in case box_blocked_s s0 board_copy x y of
           Inl e \<Rightarrow> Inl e
         | Inr blocked \<Rightarrow>
             if blocked then Inl AssertionError
             else
               (let s1 = set_position_s s0 board_copy
                           (o_active_player (boards s0 board_copy)) (x, y)
                in case block_box_s s1 board_copy x y (o_active_player (boards s1 board_copy)) of
                     Inl e \<Rightarrow> Inl e
                   | Inr s2 \<Rightarrow>
                       if o_active_player (boards s2 board_copy) = PLAYER1
                       then Inr (set_players_s s2 board_copy PLAYER2 PLAYER1, board_copy)
                       else Inr (set_players_s s2 board_copy PLAYER1 PLAYER2, board_copy)))"

section \<open>ai.py: heuristics and search\<close>

definition MAX_SCORE :: int where "MAX_SCORE = 10000"

definition manhattan_distance :: "int \<Rightarrow> int \<Rightarrow> int \<Rightarrow> int \<Rightarrow> int" where
  "manhattan_distance x1 y1 x2 y2 = \<bar>x1 - x2\<bar> + \<bar>y1 - y2\<bar>"

text \<open>
  The \<open>winner\<close> argument is \<open>False\<close> (here \<open>None\<close>) or a player;
  \<open>if winner:\<close> is Python's truth test, under which the integer 0 is false too.
\<close>

definition truthy :: "int option \<Rightarrow> bool" where
  "truthy w = (case w of None \<Rightarrow> False | Some p \<Rightarrow> p \<noteq> 0)"

type_synonym heuristic = "board \<Rightarrow> int option \<Rightarrow> int \<Rightarrow> error + int"

text \<open>
  \<open>*board.player_pos(player)\<close> unpacks the position; unpacking \<open>None\<close> raises
  \<open>TypeError\<close>.
\<close>

definition unpack_pos :: "board \<Rightarrow> int \<Rightarrow> error + pos" where
  "unpack_pos b player =
     (case player_pos b player of
        Inl e \<Rightarrow> Inl e
      | Inr None \<Rightarrow> Inl TypeError
      | Inr (Some p) \<Rightarrow> Inr p)"

text \<open>
  \<open>inv_dist_to_centre\<close>.  The double-precision expression
  \<open>int((1.0 / dist) * total)\<close> is not computed in the model: it is the parameter
  \<open>inv_scale\<close>, applied to \<open>dist\<close> and \<open>total\<close>, and a theorem assumes of it
  only what it states.
\<close>

definition inv_dist_to_centre :: "(int \<Rightarrow> int \<Rightarrow> int) \<Rightarrow> board \<Rightarrow> int \<Rightarrow> error + int" where
  "inv_dist_to_centre inv_scale b player =
     (let total = columns b * rows b;
          centre = (columns b div 2, rows b div 2)
      in case unpack_pos b player of
           Inl e \<Rightarrow> Inl e
         | Inr p \<Rightarrow>
             (let dist = manhattan_distance (fst p) (snd p) (fst centre) (snd centre)
              in if dist \<le> 0 then Inr (total + 5) else Inr (inv_scale dist total)))"

definition score_func1 :: "(int \<Rightarrow> int \<Rightarrow> int) \<Rightarrow> heuristic" where
  "score_func1 inv_scale b winner player =
     (if truthy winner then
        (if winner = Some player then Inr MAX_SCORE else Inr (- MAX_SCORE))
      else
        (case inv_dist_to_centre inv_scale b (active_player b) of
           Inl e \<Rightarrow> Inl e
         | Inr a_dist \<Rightarrow>
             (case inv_dist_to_centre inv_scale b (inactive_player b) of
                Inl e \<Rightarrow> Inl e
              | Inr o_dist \<Rightarrow> Inr (a_dist - o_dist))))"

definition score_func2 :: heuristic where
  "score_func2 b winner player =
     (if truthy winner then
        (if winner = Some player then Inr MAX_SCORE else Inr (- MAX_SCORE))
      else
        (case get_legal_moves b (Some (active_player b)) of
           Inl e \<Rightarrow> Inl e
         | Inr a_moves \<Rightarrow>
             (case get_legal_moves b (Some (inactive_player b)) of
                Inl e \<Rightarrow> Inl e
              | Inr o_moves \<Rightarrow> Inr (int (length a_moves) - int (length o_moves)))))"

definition score_func3 :: heuristic where
  "score_func3 b winner player =
     (if truthy winner then
        (if winner = Some player then Inr MAX_SCORE else Inr (- MAX_SCORE))
      else
        (case unpack_pos b (active_player b) of
           Inl e \<Rightarrow> Inl e
         | Inr pa \<Rightarrow>
             (case unpack_pos b (inactive_player b) of
                Inl e \<Rightarrow> Inl e
              | Inr po \<Rightarrow> Inr (manhattan_distance (fst pa) (snd pa) (fst po) (snd po)))))"

definition score_func4 :: "(int \<Rightarrow> int \<Rightarrow> int) \<Rightarrow> heuristic" where
  "score_func4 inv_scale b winner player =
     (if truthy winner then
        (if winner = Some player then Inr MAX_SCORE else Inr (- MAX_SCORE))
      else
        (let total = columns b * rows b
         in case unpack_pos b (active_player b) of
              Inl e \<Rightarrow> Inl e
            | Inr pa \<Rightarrow>
                (case unpack_pos b (inactive_player b) of
                   Inl e \<Rightarrow> Inl e
                 | Inr po \<Rightarrow>
                     (let dist = manhattan_distance (fst pa) (snd pa) (fst po) (snd po)
                      in if dist \<le> 0 then Inr (total + 5)
                         else Inr (inv_scale dist total)))))"

text \<open>
  The scores of the search are Python integers, \<open>float("-inf")\<close> (the initial
  \<open>best_score\<close>) and \<open>float("inf")\<close>; the window bounds are of the same kind.
\<close>

datatype score = NegInf | Fin int | PosInf

fun neg_score :: "score \<Rightarrow> score" where
  "neg_score NegInf = PosInf"
| "neg_score (Fin i) = Fin (- i)"
| "neg_score PosInf = NegInf"

fun score_less :: "score \<Rightarrow> score \<Rightarrow> bool" where
  "score_less (Fin i) (Fin j) = (i < j)"
| "score_less NegInf s = (s \<noteq> NegInf)"
| "score_less s PosInf = (s \<noteq> PosInf)"
| "score_less s NegInf = False"
| "score_less PosInf s = False"

definition score_le :: "score \<Rightarrow> score \<Rightarrow> bool" where
  "score_le s t = (s = t \<or> score_less s t)"

definition score_max :: "score \<Rightarrow> score \<Rightarrow> score" where
  "score_max s t = (if score_less s t then t else s)"

text \<open>
  The search terminates, whatever the depth, because every move blocks one more cell:
  \<open>free_count\<close> is the number of cells of the list that are not blocked.
\<close>

definition is_free_cell :: "int \<Rightarrow> bool" where
  "is_free_cell c = ((c AND BOX_BLOCKED_MASK) \<noteq> BOX_BLOCKED_MASK)"

definition free_count :: "board \<Rightarrow> nat" where
  "free_count b = length (filter is_free_cell (board_list b))"

lemma or_mask_blocked: "\<not> is_free_cell (s OR BOX_BLOCKED_MASK)"
  unfolding is_free_cell_def BOX_BLOCKED_MASK_def
  by (auto simp add: bit_eq_iff bit_and_iff bit_or_iff)

lemma filter_update_less:
  assumes "i < length xs" "P (xs ! i)" "\<not> P v"
  shows "length (filter P (xs[i := v])) < length (filter P xs)"
proof -
  have xs: "xs = take i xs @ xs ! i # drop (Suc i) xs"
    using assms(1) by (simp add: id_take_nth_drop)
  have "xs[i := v] = take i xs @ v # drop (Suc i) xs"
    using assms(1) by (simp add: upd_conv_take_nth_drop)
  then have "length (filter P (xs[i := v])) = length (filter P (take i xs)) + length (filter P (drop (Suc i) xs))"
    using assms(3) by simp
  moreover have "length (filter P xs) = length (filter P (take i xs)) + 1 + length (filter P (drop (Suc i) xs))"
    by (subst xs) (simp add: assms(2))
  ultimately show ?thesis by simp
qed

lemma list_slot_less: "list_slot n i = Some k \<Longrightarrow> k < n"
  by (auto simp: list_slot_def split: if_splits)

lemma make_move_copy_free_count:
  assumes "make_move_copy b x y = Inr nb"
  shows "free_count nb < free_count b"
proof -
  from assms have blk: "box_blocked b x y = Inr False"
    by (auto simp: make_move_copy_def Let_def split: sum.splits if_splits)
  then obtain k where k: "list_slot (length (board_list b)) (offset b x y) = Some k"
    and fr: "is_free_cell (board_list b ! k)"
    by (auto simp: box_blocked_def py_index_def is_free_cell_def split: option.splits)
  from assms blk k have "board_list nb = (board_list b)[k := active_player b OR BOX_BLOCKED_MASK]"
    by (auto simp: make_move_copy_def Let_def block_box_def py_setitem_def offset_def
          split: if_splits)
  with list_slot_less [OF k] show ?thesis
    unfolding free_count_def using filter_update_less [OF _ fr or_mask_blocked] by simp
qed

text \<open>
  \<open>negamax\<close>, and its \<open>for move in board.get_legal_moves()\<close> loop over the moves
  that are left, with the current \<open>best_score\<close> and \<open>best_move\<close>.
\<close>

function negamax :: "board \<Rightarrow> int \<Rightarrow> int \<Rightarrow> heuristic \<Rightarrow> error + (score \<times> pos option)"
  and negamax_loop :: "board \<Rightarrow> int \<Rightarrow> int \<Rightarrow> heuristic \<Rightarrow> pos list \<Rightarrow> score \<Rightarrow> pos option
                        \<Rightarrow> error + (score \<times> pos option)"
where
  "negamax b depth player score_func =
     (let player_sign = (if active_player b = player then 1 else - 1)
      in case is_game_over b of
           Inl e \<Rightarrow> Inl e
         | Inr winner \<Rightarrow>
             if truthy winner \<or> depth = 0 then
               (case score_func b winner player of
                  Inl e \<Rightarrow> Inl e
                | Inr s \<Rightarrow> Inr (Fin (player_sign * s), None))
             else
               (case get_legal_moves b None of
                  Inl e \<Rightarrow> Inl e
                | Inr moves \<Rightarrow> negamax_loop b depth player score_func moves NegInf None))"
| "negamax_loop b depth player score_func [] best_score best_move = Inr (best_score, best_move)"
| "negamax_loop b depth player score_func (move # rest) best_score best_move =
     (case make_move_copy b (fst move) (snd move) of
        Inl e \<Rightarrow> Inl e
      | Inr new_board \<Rightarrow>
          (case negamax new_board (depth - 1) player score_func of
             Inl e \<Rightarrow> Inl e
           | Inr r \<Rightarrow>
               (let current_score = neg_score (fst r)
                in if score_less best_score current_score
                   then negamax_loop b depth player score_func rest current_score (Some move)
                   else negamax_loop b depth player score_func rest best_score best_move)))"
  by pat_completeness auto
termination
  by (relation "inv_image (less_than <*lex*> less_than <*lex*> less_than)
        (\<lambda>v. case v of
                Inl (b, depth, player, sf) \<Rightarrow> (free_count b, Suc 0, 0)
              | Inr (b, depth, player, sf, moves, bs, bm) \<Rightarrow> (free_count b, 0, length moves))")
     (auto simp: make_move_copy_free_count)

text \<open>
  \<open>abnegamax\<close>; the loop carries \<open>alpha\<close> as well, and \<open>break\<close> returns what
  the statement after the loop returns.
\<close>

function abnegamax :: "board \<Rightarrow> int \<Rightarrow> int \<Rightarrow> score \<Rightarrow> score \<Rightarrow> heuristic
                        \<Rightarrow> error + (score \<times> pos option)"
  and abnegamax_loop :: "board \<Rightarrow> int \<Rightarrow> int \<Rightarrow> score \<Rightarrow> heuristic \<Rightarrow> pos list \<Rightarrow> score \<Rightarrow> score
                        \<Rightarrow> pos option \<Rightarrow> error + (score \<times> pos option)"
where
  "abnegamax b depth player alpha beta score_func =
     (let player_sign = (if active_player b = player then 1 else - 1)
      in case is_game_over b of
           Inl e \<Rightarrow> Inl e
         | Inr winner \<Rightarrow>
             if truthy winner \<or> depth = 0 then
               (case score_func b winner player of
                  Inl e \<Rightarrow> Inl e
                | Inr s \<Rightarrow> Inr (Fin (player_sign * s), None))
             else
               (case get_legal_moves b None of
                  Inl e \<Rightarrow> Inl e
                | Inr moves \<Rightarrow>
                    abnegamax_loop b depth player beta score_func moves alpha NegInf None))"
| "abnegamax_loop b depth player beta score_func [] alpha best_score best_move =
     Inr (best_score, best_move)"
| "abnegamax_loop b depth player beta score_func (move # rest) alpha best_score best_move =
     (case make_move_copy b (fst move) (snd move) of
        Inl e \<Rightarrow> Inl e
      | Inr new_board \<Rightarrow>
          (case abnegamax new_board (depth - 1) player (neg_score beta) (neg_score alpha)
                  score_func of
             Inl e \<Rightarrow> Inl e
           | Inr r \<Rightarrow>
               (let current_score = neg_score (fst r);
                    best_score' = (if score_less best_score current_score
                                   then current_score else best_score);
                    best_move' = (if score_less best_score current_score
                                  then Some move else best_move);
                    alpha' = score_max alpha current_score
                in if score_le beta alpha' then Inr (best_score', best_move')
                   else abnegamax_loop b depth player beta score_func rest alpha'
                          best_score' best_move')))"
  by pat_completeness auto
termination
  by (relation "inv_image (less_than <*lex*> less_than <*lex*> less_than)
        (\<lambda>v. case v of
                Inl (b, depth, player, alpha, beta, sf) \<Rightarrow> (free_count b, Suc 0, 0)
              | Inr (b, depth, player, beta, sf, moves, alpha, bs, bm) \<Rightarrow>
                  (free_count b, 0, length moves))")
     (auto simp: make_move_copy_free_count)


text \<open>
  \<open>abnegamax\<close> once more, with one more result: whether the \<open>break\<close> of the
  loop was executed in this call or in a call below it.  Nothing else differs (lemma
  \<open>abnegamax_traced_result\<close>); the flag is what "no cutoff triggers anywhere in
  the search tree" is stated with.
\<close>

function abnegamax_traced :: "board \<Rightarrow> int \<Rightarrow> int \<Rightarrow> score \<Rightarrow> score \<Rightarrow> heuristic
                        \<Rightarrow> error + ((score \<times> pos option) \<times> bool)"
  and abnegamax_traced_loop :: "board \<Rightarrow> int \<Rightarrow> int \<Rightarrow> score \<Rightarrow> heuristic \<Rightarrow> pos list \<Rightarrow> score
                        \<Rightarrow> score \<Rightarrow> pos option \<Rightarrow> bool \<Rightarrow> error + ((score \<times> pos option) \<times> bool)"
where
  "abnegamax_traced b depth player alpha beta score_func =
     (let player_sign = (if active_player b = player then 1 else - 1)
      in case is_game_over b of
           Inl e \<Rightarrow> Inl e
         | Inr winner \<Rightarrow>
             if truthy winner \<or> depth = 0 then
               (case score_func b winner player of
                  Inl e \<Rightarrow> Inl e
                | Inr s \<Rightarrow> Inr ((Fin (player_sign * s), None), False))
             else
               (case get_legal_moves b None of
                  Inl e \<Rightarrow> Inl e
                | Inr moves \<Rightarrow>
                    abnegamax_traced_loop b depth player beta score_func moves alpha
                      NegInf None False))"
| "abnegamax_traced_loop b depth player beta score_func [] alpha best_score best_move pruned =
     Inr ((best_score, best_move), pruned)"
| "abnegamax_traced_loop b depth player beta score_func (move # rest) alpha best_score
       best_move pruned =
     (case make_move_copy b (fst move) (snd move) of
        Inl e \<Rightarrow> Inl e
      | Inr new_board \<Rightarrow>
          (case abnegamax_traced new_board (depth - 1) player (neg_score beta)
                  (neg_score alpha) score_func of
             Inl e \<Rightarrow> Inl e
           | Inr r \<Rightarrow>
               (let current_score = neg_score (fst (fst r));
                    best_score' = (if score_less best_score current_score
                                   then current_score else best_score);
                    best_move' = (if score_less best_score current_score
                                  then Some move else best_move);
                    alpha' = score_max alpha current_score
                in if score_le beta alpha' then Inr ((best_score', best_move'), True)
                   else abnegamax_traced_loop b depth player beta score_func rest alpha'
                          best_score' best_move' (pruned \<or> snd r))))"
  by pat_completeness auto
termination
  by (relation "inv_image (less_than <*lex*> less_than <*lex*> less_than)
        (\<lambda>v. case v of
                Inl (b, depth, player, alpha, beta, sf) \<Rightarrow> (free_count b, Suc 0, 0)
              | Inr (b, depth, player, beta, sf, moves, alpha, bs, bm, pruned) \<Rightarrow>
                  (free_count b, 0, length moves))")
     (auto simp: make_move_copy_free_count)

text \<open>
  \<open>power_abnegamax\<close>.  \<open>range(depth - 1, 0, -1)\<close> is the list
  \<open>depth - 1, ..., 1\<close>, empty for \<open>depth \<le> 1\<close>; the loop over it assigns
  \<open>best_score\<close> and \<open>best_move\<close> at every depth it tries.
\<close>

definition retry_depths :: "int \<Rightarrow> int list" where
  "retry_depths depth = rev (map int [1..<nat depth])"

fun retry_loop :: "board \<Rightarrow> int \<Rightarrow> score \<Rightarrow> score \<Rightarrow> heuristic \<Rightarrow> int list \<Rightarrow> score \<Rightarrow> pos option
                    \<Rightarrow> error + (score \<times> pos option)" where
  "retry_loop b player alpha beta score_func [] best_score best_move =
     Inr (best_score, best_move)"
| "retry_loop b player alpha beta score_func (i_depth # ds) best_score best_move =
     (case abnegamax b i_depth player alpha beta score_func of
        Inl e \<Rightarrow> Inl e
      | Inr r \<Rightarrow>
          if score_less (Fin (- MAX_SCORE)) (fst r) then Inr (fst r, snd r)
          else retry_loop b player alpha beta score_func ds (fst r) (snd r))"

definition power_abnegamax :: "board \<Rightarrow> int \<Rightarrow> int \<Rightarrow> score \<Rightarrow> score \<Rightarrow> heuristic
                                \<Rightarrow> error + (score \<times> pos option)" where
  "power_abnegamax b depth player alpha beta score_func =
     (case abnegamax b depth player alpha beta score_func of
        Inl e \<Rightarrow> Inl e
      | Inr r \<Rightarrow>
          if score_le (fst r) (Fin (- MAX_SCORE))
          then retry_loop b player alpha beta score_func (retry_depths depth) (fst r) (snd r)
          else Inr (fst r, snd r))"

text \<open>
  What the search reports: a result is \<open>losing\<close> when its score is
  \<open><= -MAX_SCORE\<close> and \<open>optimistic\<close> when its score is \<open>> -MAX_SCORE\<close>,
  the two tests of \<open>power_abnegamax\<close>.
\<close>

definition losing :: "error + (score \<times> pos option) \<Rightarrow> bool" where
  "losing res = (case res of Inl e \<Rightarrow> False | Inr r \<Rightarrow> score_le (fst r) (Fin (- MAX_SCORE)))"

definition optimistic :: "error + (score \<times> pos option) \<Rightarrow> bool" where
  "optimistic res =
     (case res of Inl e \<Rightarrow> False | Inr r \<Rightarrow> score_less (Fin (- MAX_SCORE)) (fst r))"

declare negamax.simps [simp del] negamax_loop.simps [simp del]
declare abnegamax.simps [simp del] abnegamax_loop.simps [simp del]
declare abnegamax_traced.simps [simp del] abnegamax_traced_loop.simps [simp del]

section \<open>Boards used as concrete inputs\<close>

text \<open>
  The 1 x 2 board after \<open>make_move(0, 0)\<close> and \<open>make_move(1, 0)\<close>: both players
  stand on the only two cells and neither can move.
\<close>

definition stuck_board :: board where
  "stuck_board =
     \<lparr>rows = 1, columns = 2, board_list = [17, 18],
      active_player = 1, inactive_player = 2,
      players_position = [1 \<mapsto> Some (0, 0), 2 \<mapsto> Some (1, 0)]\<rparr>"

text \<open>
  The 2 x 2 board after \<open>make_move(0, 0)\<close> and \<open>make_move(1, 0)\<close>: player 1 is to
  move and the cells \<open>(0, 1)\<close> and \<open>(1, 1)\<close> are free.
\<close>

definition corner_board :: board where
  "corner_board =
     \<lparr>rows = 2, columns = 2, board_list = [17, 18, 4, 4],
      active_player = 1, inactive_player = 2,
      players_position = [1 \<mapsto> Some (0, 0), 2 \<mapsto> Some (1, 0)]\<rparr>"

text \<open>
  A store with one board object, at address 0, whose value is \<open>corner_board\<close>.
\<close>

definition corner_store :: store where
  "corner_store =
     \<lparr>boards = (\<lambda>_. \<lparr>o_rows = 2, o_columns = 2, o_board = 0, o_active_player = 1,
                       o_inactive_player = 2, o_players_position = 0\<rparr>),
      lists = (\<lambda>_. [17, 18, 4, 4]),
      dicts = (\<lambda>_. [1 \<mapsto> Some (0, 0), 2 \<mapsto> Some (1, 0)]),
      next_addr = 1\<rparr>"

text \<open>
  A heuristic of the shared signature, used as an input of the search: it keeps the
  terminal contract and rates every board still in play at \<open>- 2 * MAX_SCORE\<close>.
\<close>

definition gloomy :: heuristic where
  "gloomy b winner player =
     (if truthy winner then
        (if winner = Some player then Inr MAX_SCORE else Inr (- MAX_SCORE))
      else Inr (- 2 * MAX_SCORE))"

text \<open>
  The 1 x 10001 board after \<open>make_move(0, 0)\<close> and \<open>make_move(10000, 0)\<close>: the
  players stand at the two ends of the only row.
\<close>

definition wide_board :: board where
  "wide_board =
     \<lparr>rows = 1, columns = 10001, board_list = (replicate 10001 4)[0 := 17, 10000 := 18],
      active_player = 1, inactive_player = 2,
      players_position = [1 \<mapsto> Some (0, 0), 2 \<mapsto> Some (10000, 0)]\<rparr>"

text \<open>
  The 1 x 4 board after \<open>make_move(0, 0)\<close> and \<open>make_move(1, 0)\<close>: player 2
  stands between player 1 and the free cells \<open>(2, 0)\<close> and \<open>(3, 0)\<close>.
\<close>

definition row_board :: board where
  "row_board =
     \<lparr>rows = 1, columns = 4, board_list = [17, 18, 4, 4],
      active_player = 1, inactive_player = 2,
      players_position = [1 \<mapsto> Some (0, 0), 2 \<mapsto> Some (1, 0)]\<rparr>"

text \<open>
  The 2 x 2 board after \<open>make_move(0, 0)\<close>: player 2 is to move and has no
  position yet.
\<close>

definition opening_board :: board where
  "opening_board =
     \<lparr>rows = 2, columns = 2, board_list = [17, 4, 4, 4],
      active_player = 2, inactive_player = 1,
      players_position = [1 \<mapsto> Some (0, 0), 2 \<mapsto> None]\<rparr>"

lemma py_range_small: "py_range 2 = [0, 1]" "py_range 4 = [0, 1, 2, 3]"
  by code_simp+

lemmas move_eval = Board_init_def clear_board_def make_move_def box_blocked_def
  py_index_def py_setitem_def list_slot_def offset_def block_box_def PLAYER1_def PLAYER2_def BOX_CLEAR_def
  BOX_BLOCKED_MASK_def Let_def py_range_small

lemma positions_eq:
  "[1 \<mapsto> None, 2 \<mapsto> None, 1 \<mapsto> Some p, 2 \<mapsto> Some q] =
   [(1::int) \<mapsto> Some p, 2 \<mapsto> Some (q::pos)]"
  by (rule ext) simp

lemma stuck_board_reached:
  "(case Board_init 1 2 of Inl e \<Rightarrow> Inl e | Inr b0 \<Rightarrow>
     (case make_move b0 0 0 of Inl e \<Rightarrow> Inl e | Inr b1 \<Rightarrow> make_move b1 1 0)) = Inr stuck_board"
  by (simp add: move_eval stuck_board_def positions_eq)

lemma corner_board_reached:
  "(case Board_init 2 2 of Inl e \<Rightarrow> Inl e | Inr b0 \<Rightarrow>
     (case make_move b0 0 0 of Inl e \<Rightarrow> Inl e | Inr b1 \<Rightarrow> make_move b1 1 0)) = Inr corner_board"
  by (simp add: move_eval corner_board_def positions_eq)

lemma clear_cells: "map (\<lambda>_. c) (py_range n) = replicate (nat n) c"
  by (simp add: py_range_def map_replicate_const)

lemma wide_board_reached:
  "(case Board_init 1 10001 of Inl e \<Rightarrow> Inl e | Inr b0 \<Rightarrow>
     (case make_move b0 0 0 of Inl e \<Rightarrow> Inl e | Inr b1 \<Rightarrow> make_move b1 10000 0))
   = Inr wide_board"
proof -
  have n: "(replicate 10001 (4::int)) ! 0 = 4" "(replicate 10001 (4::int))[0 := 17] ! 10000 = 4"
    by simp_all
  have o: "(1::int) OR 16 = 17" "(2::int) OR 16 = 18" "(4::int) AND 16 = 0"
    by code_simp+
  show ?thesis
    by (simp add: Board_init_def clear_board_def clear_cells make_move_def box_blocked_def
          py_index_def py_setitem_def list_slot_def offset_def block_box_def PLAYER1_def
          PLAYER2_def BOX_CLEAR_def BOX_BLOCKED_MASK_def Let_def n o wide_board_def
          positions_eq)
qed

lemma positions_first:
  "[1 \<mapsto> None, 2 \<mapsto> None, 1 \<mapsto> Some p] = [(1::int) \<mapsto> Some (p::pos), 2 \<mapsto> None]"
  by (rule ext) simp

lemma row_board_reached:
  "(case Board_init 1 4 of Inl e \<Rightarrow> Inl e | Inr b0 \<Rightarrow>
     (case make_move b0 0 0 of Inl e \<Rightarrow> Inl e | Inr b1 \<Rightarrow> make_move b1 1 0)) = Inr row_board"
  by (simp add: move_eval row_board_def positions_eq)

lemma opening_board_reached:
  "(case Board_init 2 2 of Inl e \<Rightarrow> Inl e | Inr b0 \<Rightarrow> make_move b0 0 0) = Inr opening_board"
  by (simp add: move_eval opening_board_def positions_first)

lemma row_moves:
  "get_legal_moves row_board (Some 1) = Inr []"
  "get_legal_moves row_board (Some 2) = Inr [(2, 0), (3, 0)]"
  "box_blocked row_board 1 0 = Inr True"
  "box_blocked row_board 2 0 = Inr False"
  by code_simp+

lemma opening_moves:
  "get_legal_moves opening_board None = Inr [(1, 0), (0, 1), (1, 1)]"
  "box_blocked opening_board 0 0 = Inr True"
  by code_simp+

lemma stuck_moves:
  "get_legal_moves stuck_board (Some 1) = Inr []"
  "get_legal_moves stuck_board (Some 2) = Inr []"
  "get_legal_moves stuck_board None = Inr []"
  by code_simp+

lemma corner_moves:
  "get_legal_moves corner_board (Some 1) = Inr [(1, 1), (0, 1)]"
  "get_legal_moves corner_board (Some 2) = Inr [(1, 1), (0, 1)]"
  "get_legal_moves corner_board None = Inr [(1, 1), (0, 1)]"
  by code_simp+

lemma stuck_over: "is_game_over stuck_board = Inr (Some 2)"
  by code_simp

lemma corner_not_over: "is_game_over corner_board = Inr None"
  by code_simp

section \<open>Legal moves are free cells\<close>

lemma free_row_free:
  "free_row b y xs moves = Inr ms \<Longrightarrow> \<forall>p\<in>set moves. box_blocked b (fst p) (snd p) = Inr False
   \<Longrightarrow> \<forall>p\<in>set ms. box_blocked b (fst p) (snd p) = Inr False"
proof (induction xs arbitrary: moves)
  case Nil
  then show ?case by simp
next
  case (Cons x xs)
  from Cons.prems(1) obtain blocked where
    bl: "box_blocked b x y = Inr blocked"
    and rest: "free_row b y xs (if \<not> blocked then moves @ [(x, y)] else moves) = Inr ms"
    by (cases "box_blocked b x y") simp_all
  have "\<forall>p\<in>set (if \<not> blocked then moves @ [(x, y)] else moves).
          box_blocked b (fst p) (snd p) = Inr False"
    using bl Cons.prems(2) by (cases blocked) simp_all
  from Cons.IH [OF rest this] show ?case .
qed

lemma free_rows_free:
  "free_rows b ys moves = Inr ms \<Longrightarrow> \<forall>p\<in>set moves. box_blocked b (fst p) (snd p) = Inr False
   \<Longrightarrow> \<forall>p\<in>set ms. box_blocked b (fst p) (snd p) = Inr False"
proof (induction ys arbitrary: moves)
  case Nil
  then show ?case by simp
next
  case (Cons y ys)
  from Cons.prems(1) obtain m1 where
    r: "free_row b y (py_range (columns b)) moves = Inr m1" and rest: "free_rows b ys m1 = Inr ms"
    by (auto split: sum.splits)
  from free_row_free [OF r Cons.prems(2)] Cons.IH [OF rest] show ?case by blast
qed

lemma ray_loop_free:
  "ray_loop b dx dy x y moves = Inr ms \<Longrightarrow> \<forall>p\<in>set moves. box_blocked b (fst p) (snd p) = Inr False
   \<Longrightarrow> \<forall>p\<in>set ms. box_blocked b (fst p) (snd p) = Inr False"
proof (induction b dx dy x y moves rule: ray_loop.induct)
  case (1 b dx dy x y moves)
  from "1.prems"(1) show ?case
    apply (subst (asm) ray_loop.simps)
    using "1.IH" "1.prems"(2)
    by (auto split: if_splits sum.splits)
qed

lemma rays_free:
  "rays b loc ds moves = Inr ms \<Longrightarrow> \<forall>p\<in>set moves. box_blocked b (fst p) (snd p) = Inr False
   \<Longrightarrow> \<forall>p\<in>set ms. box_blocked b (fst p) (snd p) = Inr False"
proof (induction ds arbitrary: moves)
  case Nil
  then show ?case by simp
next
  case (Cons d ds)
  from Cons.prems(1) obtain m1 where
    r: "ray_loop b (fst d) (snd d) (fst loc) (snd loc) moves = Inr m1" and rest: "rays b loc ds m1 = Inr ms"
    by (auto split: sum.splits)
  from ray_loop_free [OF r Cons.prems(2)] Cons.IH [OF rest] show ?case by blast
qed

lemma legal_moves_free:
  assumes "get_legal_moves b player = Inr ms" and "p \<in> set ms"
  shows "box_blocked b (fst p) (snd p) = Inr False"
proof -
  from assms(1) consider
      (placement) "free_rows b (py_range (rows b)) [] = Inr ms"
    | (ray) loc where "rays b loc dirs_deltas [] = Inr ms"
    unfolding get_legal_moves_def get_free_boxes_def
    by (cases "case player of None \<Rightarrow> dict_get (players_position b) (active_player b)
                 | Some p \<Rightarrow> dict_get (players_position b) p")
       (auto split: option.splits)
  then show ?thesis
  proof cases
    case placement
    from free_rows_free [OF placement] assms(2) show ?thesis by simp
  next
    case ray
    from rays_free [OF ray] assms(2) show ?thesis by simp
  qed
qed

lemma step_to_shift: "step_to (step_to loc d 1) d j = step_to loc d (j + 1)"
  by (simp add: step_to_def algebra_simps)

lemma clear_to_shift:
  "clear_to b loc d (k + 1) \<longleftrightarrow>
     (0 \<le> k \<longrightarrow> in_grid b (step_to loc d 1)
        \<and> box_blocked b (fst (step_to loc d 1)) (snd (step_to loc d 1)) = Inr False
        \<and> clear_to b (step_to loc d 1) d k)"
proof
  assume a: "clear_to b loc d (k + 1)"
  show "0 \<le> k \<longrightarrow> in_grid b (step_to loc d 1)
        \<and> box_blocked b (fst (step_to loc d 1)) (snd (step_to loc d 1)) = Inr False
        \<and> clear_to b (step_to loc d 1) d k"
  proof
    assume k: "0 \<le> k"
    from a k have first: "in_grid b (step_to loc d 1)
        \<and> box_blocked b (fst (step_to loc d 1)) (snd (step_to loc d 1)) = Inr False"
      by (simp add: clear_to_def)
    have "clear_to b (step_to loc d 1) d k"
      unfolding clear_to_def step_to_shift
    proof (intro allI impI)
      fix j :: int
      assume "1 \<le> j \<and> j \<le> k"
      then have "1 \<le> j + 1 \<and> j + 1 \<le> k + 1" by simp
      with a show "in_grid b (step_to loc d (j + 1))
        \<and> box_blocked b (fst (step_to loc d (j + 1))) (snd (step_to loc d (j + 1))) = Inr False"
        unfolding clear_to_def by blast
    qed
    with first show "in_grid b (step_to loc d 1)
        \<and> box_blocked b (fst (step_to loc d 1)) (snd (step_to loc d 1)) = Inr False
        \<and> clear_to b (step_to loc d 1) d k" by simp
  qed
next
  assume a: "0 \<le> k \<longrightarrow> in_grid b (step_to loc d 1)
        \<and> box_blocked b (fst (step_to loc d 1)) (snd (step_to loc d 1)) = Inr False
        \<and> clear_to b (step_to loc d 1) d k"
  show "clear_to b loc d (k + 1)"
    unfolding clear_to_def
  proof (intro allI impI)
    fix j :: int
    assume j: "1 \<le> j \<and> j \<le> k + 1"
    then have k: "0 \<le> k" by simp
    show "in_grid b (step_to loc d j)
        \<and> box_blocked b (fst (step_to loc d j)) (snd (step_to loc d j)) = Inr False"
    proof (cases "j = 1")
      case True
      with a k show ?thesis by simp
    next
      case False
      with j have "1 \<le> j - 1 \<and> j - 1 \<le> k" by simp
      with a k have "in_grid b (step_to (step_to loc d 1) d (j - 1))
        \<and> box_blocked b (fst (step_to (step_to loc d 1) d (j - 1)))
              (snd (step_to (step_to loc d 1) d (j - 1))) = Inr False"
        unfolding clear_to_def by blast
      then show ?thesis by (simp add: step_to_shift)
    qed
  qed
qed


lemma clear_to_first:
  "1 \<le> k \<Longrightarrow> clear_to b loc d k \<Longrightarrow>
     in_grid b (step_to loc d 1)
     \<and> box_blocked b (fst (step_to loc d 1)) (snd (step_to loc d 1)) = Inr False"
  by (simp add: clear_to_def)

lemma clear_to_one:
  "clear_to b loc d 1 \<longleftrightarrow>
     in_grid b (step_to loc d 1)
     \<and> box_blocked b (fst (step_to loc d 1)) (snd (step_to loc d 1)) = Inr False"
proof -
  have "clear_to b (step_to loc d 1) d 0" by (auto simp: clear_to_def)
  with clear_to_shift [of b loc d 0] show ?thesis by simp
qed

lemma ray_loop_cells:
  assumes "ray_loop b dx dy x y moves = Inr ms"
  shows "c \<in> set ms \<longleftrightarrow>
           c \<in> set moves
           \<or> (\<exists>k\<ge>1. c = step_to (x, y) (dx, dy) k \<and> clear_to b (x, y) (dx, dy) k)"
  using assms
proof (induction b dx dy x y moves rule: ray_loop.induct)
  case (1 b dx dy x y moves)
  have new: "step_to (x, y) (dx, dy) 1 = (x + dx, y + dy)"
    by (simp add: step_to_def)
  have grid: "in_grid b (x + dx, y + dy) \<longleftrightarrow>
      (0 \<le> x + dx \<and> x + dx < columns b) \<and> (0 \<le> y + dy \<and> y + dy < rows b)"
    by (auto simp: in_grid_def)
  from "1.prems" have nz: "\<not> (dx = 0 \<and> dy = 0)"
    by (subst (asm) ray_loop.simps) (auto split: if_splits)
  show ?case
  proof (cases "(0 \<le> x + dx \<and> x + dx < columns b) \<and> (0 \<le> y + dy \<and> y + dy < rows b)")
    case False
    with "1.prems" nz have "ms = moves"
      by (subst (asm) ray_loop.simps) (auto split: if_splits)
    moreover from False grid
    have "\<not> (\<exists>k\<ge>1. c = step_to (x, y) (dx, dy) k \<and> clear_to b (x, y) (dx, dy) k)"
      using clear_to_first [of _ b "(x, y)" "(dx, dy)"] new by auto
    ultimately show ?thesis by blast
  next
    case True
    note inb = this
    from "1.prems" nz inb obtain bl where bl: "box_blocked b (x + dx) (y + dy) = Inr bl"
      by (subst (asm) ray_loop.simps) (cases "box_blocked b (x + dx) (y + dy)", simp_all)
    show ?thesis
    proof (cases bl)
      case True
      with "1.prems" nz inb bl have "ms = moves"
        by (subst (asm) ray_loop.simps) simp
      moreover from True bl
      have "\<not> (\<exists>k\<ge>1. c = step_to (x, y) (dx, dy) k \<and> clear_to b (x, y) (dx, dy) k)"
        using clear_to_first [of _ b "(x, y)" "(dx, dy)"] new by auto
      ultimately show ?thesis by blast
    next
      case False
      with "1.prems" nz inb bl
      have rec: "ray_loop b dx dy (x + dx) (y + dy) (moves @ [(x + dx, y + dy)]) = Inr ms"
        by (subst (asm) ray_loop.simps) simp
      from "1.IH" [OF nz inb bl False rec]
      have ih: "c \<in> set ms \<longleftrightarrow>
          c \<in> set (moves @ [(x + dx, y + dy)])
          \<or> (\<exists>k\<ge>1. c = step_to (x + dx, y + dy) (dx, dy) k
                     \<and> clear_to b (x + dx, y + dy) (dx, dy) k)" .
      have first: "in_grid b (step_to (x, y) (dx, dy) 1)
          \<and> box_blocked b (fst (step_to (x, y) (dx, dy) 1)) (snd (step_to (x, y) (dx, dy) 1))
                = Inr False"
        using inb bl False grid by (simp add: new)
      have shift: "\<And>k. 0 \<le> k \<Longrightarrow>
          clear_to b (x, y) (dx, dy) (k + 1) \<longleftrightarrow> clear_to b (x + dx, y + dy) (dx, dy) k"
        using clear_to_shift [of b "(x, y)" "(dx, dy)"] first by (simp add: new)
      have pos: "\<And>k. step_to (x + dx, y + dy) (dx, dy) k = step_to (x, y) (dx, dy) (k + 1)"
        using step_to_shift [of "(x, y)" "(dx, dy)"] by (simp add: new)
      show ?thesis
      proof
        assume "c \<in> set ms"
        with ih consider (old) "c \<in> set moves" | (new) "c = (x + dx, y + dy)"
          | (far) k where "1 \<le> k" "c = step_to (x + dx, y + dy) (dx, dy) k"
              "clear_to b (x + dx, y + dy) (dx, dy) k"
          by auto
        then show "c \<in> set moves
           \<or> (\<exists>k\<ge>1. c = step_to (x, y) (dx, dy) k \<and> clear_to b (x, y) (dx, dy) k)"
        proof cases
          case old
          then show ?thesis by simp
        next
          case new
          have "clear_to b (x, y) (dx, dy) 1" using first by (simp add: clear_to_one)
          with new \<open>step_to (x, y) (dx, dy) 1 = (x + dx, y + dy)\<close> show ?thesis
            by (intro disjI2 exI [of _ 1]) simp
        next
          case far
          from far(1,3) shift [of k] have "clear_to b (x, y) (dx, dy) (k + 1)" by simp
          with far(1,2) pos [of k] show ?thesis
            by (intro disjI2 exI [of _ "k + 1"]) simp
        qed
      next
        assume "c \<in> set moves
           \<or> (\<exists>k\<ge>1. c = step_to (x, y) (dx, dy) k \<and> clear_to b (x, y) (dx, dy) k)"
        then consider (old) "c \<in> set moves"
          | (run) k where "1 \<le> k" "c = step_to (x, y) (dx, dy) k"
              "clear_to b (x, y) (dx, dy) k"
          by auto
        then show "c \<in> set ms"
        proof cases
          case old
          with ih show ?thesis by simp
        next
          case run
          show ?thesis
          proof (cases "k = 1")
            case True
            with run(2) ih show ?thesis by (simp add: new)
          next
            case False
            with run(1) have k: "1 \<le> k - 1" by simp
            from run(3) shift [of "k - 1"] k
            have "clear_to b (x + dx, y + dy) (dx, dy) (k - 1)" by simp
            moreover from run(2) pos [of "k - 1"]
            have "c = step_to (x + dx, y + dy) (dx, dy) (k - 1)" by simp
            ultimately show ?thesis using ih k by blast
          qed
        qed
      qed
    qed
  qed
qed


lemma rays_cells:
  assumes "rays b loc ds moves = Inr ms"
  shows "c \<in> set ms \<longleftrightarrow>
           c \<in> set moves
           \<or> (\<exists>d\<in>set ds. \<exists>k\<ge>1. c = step_to loc d k \<and> clear_to b loc d k)"
  using assms
proof (induction ds arbitrary: moves)
  case Nil
  then show ?case by simp
next
  case (Cons d ds)
  from Cons.prems obtain m1 where
    m1: "ray_loop b (fst d) (snd d) (fst loc) (snd loc) moves = Inr m1"
    and rest: "rays b loc ds m1 = Inr ms"
    by (cases "ray_loop b (fst d) (snd d) (fst loc) (snd loc) moves") simp_all
  from ray_loop_cells [OF m1, of c]
  have one: "c \<in> set m1 \<longleftrightarrow>
      c \<in> set moves \<or> (\<exists>k\<ge>1. c = step_to loc d k \<and> clear_to b loc d k)"
    by simp
  from Cons.IH [OF rest] one show ?case by auto
qed

lemma set_py_range: "set (py_range n) = {k. 0 \<le> k \<and> k < n}"
proof (rule set_eqI)
  fix k :: int
  show "k \<in> set (py_range n) \<longleftrightarrow> k \<in> {k. 0 \<le> k \<and> k < n}"
  proof
    assume "k \<in> set (py_range n)"
    then show "k \<in> {k. 0 \<le> k \<and> k < n}" by (auto simp: py_range_def)
  next
    assume "k \<in> {k. 0 \<le> k \<and> k < n}"
    then have "nat k \<in> {0..<nat n}" and "k = int (nat k)" by auto
    then have "k \<in> int ` {0..<nat n}" by (rule_tac image_eqI)
    then show "k \<in> set (py_range n)" by (simp add: py_range_def)
  qed
qed

lemma free_row_cells:
  assumes "free_row b y xs moves = Inr ms"
  shows "c \<in> set ms \<longleftrightarrow>
           c \<in> set moves
           \<or> (fst c \<in> set xs \<and> snd c = y \<and> box_blocked b (fst c) (snd c) = Inr False)"
  using assms
proof (induction xs arbitrary: moves)
  case Nil
  then show ?case by simp
next
  case (Cons x xs)
  from Cons.prems obtain blocked where
    bl: "box_blocked b x y = Inr blocked"
    and rest: "free_row b y xs (if \<not> blocked then moves @ [(x, y)] else moves) = Inr ms"
    by (cases "box_blocked b x y") simp_all
  from Cons.IH [OF rest] bl show ?case
    by (cases blocked; cases c) auto
qed

lemma free_rows_cells:
  assumes "free_rows b ys moves = Inr ms"
  shows "c \<in> set ms \<longleftrightarrow>
           c \<in> set moves
           \<or> (snd c \<in> set ys \<and> fst c \<in> set (py_range (columns b))
               \<and> box_blocked b (fst c) (snd c) = Inr False)"
  using assms
proof (induction ys arbitrary: moves)
  case Nil
  then show ?case by simp
next
  case (Cons y ys)
  from Cons.prems obtain m1 where
    r: "free_row b y (py_range (columns b)) moves = Inr m1"
    and rest: "free_rows b ys m1 = Inr ms"
    by (cases "free_row b y (py_range (columns b)) moves") simp_all
  from free_row_cells [OF r, of c] Cons.IH [OF rest] show ?case by auto
qed

text \<open>
  C7.  For every board and every player, positioned or not, no coordinate in the list
  that \<open>get_legal_moves\<close> returns is blocked: \<open>box_blocked\<close> answers
  \<open>False\<close> for it.  For a player without a position the list holds exactly the
  cells of the grid that are not blocked.  For a player at \<open>loc\<close> it holds
  exactly the cells on a clear run from \<open>loc\<close>: each ray ends before the first
  blocked cell, and no cell behind a blocked one is returned.
\<close>

theorem get_legal_moves_never_blocked:
  assumes "get_legal_moves b player = Inr ms"
  shows "((x, y) \<in> set ms \<longrightarrow> box_blocked b x y = Inr False)
       \<and> ((case player of
               None \<Rightarrow> dict_get (players_position b) (active_player b)
             | Some p \<Rightarrow> dict_get (players_position b) p) = Inr None \<longrightarrow>
            ((x, y) \<in> set ms \<longleftrightarrow> in_grid b (x, y) \<and> box_blocked b x y = Inr False))
       \<and> (\<forall>loc. (case player of
                     None \<Rightarrow> dict_get (players_position b) (active_player b)
                   | Some p \<Rightarrow> dict_get (players_position b) p) = Inr (Some loc) \<longrightarrow>
            ((x, y) \<in> set ms \<longleftrightarrow> clear_run b loc (x, y)))"
proof (intro conjI impI allI)
  assume "(x, y) \<in> set ms"
  with legal_moves_free [OF assms, of "(x, y)"] show "box_blocked b x y = Inr False" by simp
next
  assume "(case player of
               None \<Rightarrow> dict_get (players_position b) (active_player b)
             | Some p \<Rightarrow> dict_get (players_position b) p) = Inr None"
  with assms have "free_rows b (py_range (rows b)) [] = Inr ms"
    by (simp add: get_legal_moves_def get_free_boxes_def)
  from free_rows_cells [OF this, of "(x, y)"]
  show "(x, y) \<in> set ms \<longleftrightarrow> in_grid b (x, y) \<and> box_blocked b x y = Inr False"
    by (auto simp: set_py_range in_grid_def)
next
  fix loc
  assume "(case player of
               None \<Rightarrow> dict_get (players_position b) (active_player b)
             | Some p \<Rightarrow> dict_get (players_position b) p) = Inr (Some loc)"
  with assms have "rays b loc dirs_deltas [] = Inr ms"
    by (simp add: get_legal_moves_def)
  from rays_cells [OF this, of "(x, y)"]
  show "(x, y) \<in> set ms \<longleftrightarrow> clear_run b loc (x, y)"
    by (simp add: clear_run_def)
qed

theorem get_legal_moves_never_blocked_witness:
  "get_legal_moves row_board (Some 2) = Inr [(2, 0), (3, 0)]
   \<and> dict_get (players_position row_board) 2 = Inr (Some (1, 0))
   \<and> (3, 0) \<in> set [(2, 0), (3, 0 :: int)]
   \<and> box_blocked row_board 3 0 = Inr False
   \<and> clear_run row_board (1, 0) (3, 0)
   \<and> get_legal_moves row_board (Some 1) = Inr []
   \<and> dict_get (players_position row_board) 1 = Inr (Some (0, 0))
   \<and> box_blocked row_board 2 0 = Inr False
   \<and> \<not> clear_run row_board (0, 0) (2, 0)
   \<and> get_legal_moves opening_board None = Inr [(1, 0), (0, 1), (1, 1)]
   \<and> dict_get (players_position opening_board) (active_player opening_board) = Inr None
   \<and> (0, 1) \<in> set [(1, 0), (0, 1), (1, 1 :: int)]
   \<and> in_grid opening_board (0, 1) \<and> box_blocked opening_board 0 1 = Inr False"
proof -
  have p2: "(case Some 2 of
               None \<Rightarrow> dict_get (players_position row_board) (active_player row_board)
             | Some p \<Rightarrow> dict_get (players_position row_board) p) = Inr (Some (1, 0))"
    and p1: "(case Some 1 of
               None \<Rightarrow> dict_get (players_position row_board) (active_player row_board)
             | Some p \<Rightarrow> dict_get (players_position row_board) p) = Inr (Some (0, 0))"
    by (simp_all add: row_board_def dict_get_def)
  have p0: "(case None of
               None \<Rightarrow> dict_get (players_position opening_board) (active_player opening_board)
             | Some p \<Rightarrow> dict_get (players_position opening_board) p) = Inr None"
    by (simp add: opening_board_def dict_get_def)
  have m3: "(3, 0) \<in> set [(2, 0), (3, 0 :: int)]"
    and m1: "(0, 1) \<in> set [(1, 0), (0, 1), (1, 1 :: int)]"
    and m2: "(2, 0 :: int) \<notin> set ([] :: pos list)"
    by simp_all
  from get_legal_moves_never_blocked [OF row_moves(2), of 3 0] p2 m3
  have a: "box_blocked row_board 3 0 = Inr False" "clear_run row_board (1, 0) (3, 0)"
    by blast+
  from get_legal_moves_never_blocked [OF row_moves(1), of 2 0] p1 m2
  have b: "\<not> clear_run row_board (0, 0) (2, 0)"
    by blast
  from get_legal_moves_never_blocked [OF opening_moves(1), of 0 1] p0 m1
  have c: "in_grid opening_board (0, 1)" "box_blocked opening_board 0 1 = Inr False"
    by blast+
  from p2 p1 p0 have
    "dict_get (players_position row_board) 2 = Inr (Some (1, 0))"
    "dict_get (players_position row_board) 1 = Inr (Some (0, 0))"
    "dict_get (players_position opening_board) (active_player opening_board) = Inr None"
    by simp_all
  with a b c m3 m1 row_moves(1,2,4) opening_moves(1) show ?thesis by blast
qed

section \<open>The terminal test\<close>

text \<open>
  C6.  \<open>is_game_over\<close> looks at the active player first: when the active player
  has no legal move the inactive player is returned, whatever the inactive player
  could do; the active player is returned only when it can move and the inactive
  player cannot; otherwise the result is \<open>False\<close>.
\<close>

theorem is_game_over_active_first:
  assumes "get_legal_moves b (Some (active_player b)) = Inr am"
  shows "is_game_over b =
     (if am = [] then Inr (Some (inactive_player b))
      else (case get_legal_moves b (Some (inactive_player b)) of
              Inl e \<Rightarrow> Inl e
            | Inr om \<Rightarrow> if om = [] then Inr (Some (active_player b)) else Inr None))"
  using assms by (simp add: is_game_over_def)

theorem is_game_over_active_first_witness:
  "get_legal_moves stuck_board (Some (active_player stuck_board)) = Inr []
   \<and> get_legal_moves stuck_board (Some (inactive_player stuck_board)) = Inr []
   \<and> is_game_over stuck_board = Inr (Some (inactive_player stuck_board))
   \<and> inactive_player stuck_board = PLAYER2"
proof -
  have a: "get_legal_moves stuck_board (Some (active_player stuck_board)) = Inr []"
    using stuck_moves(1) by (simp add: stuck_board_def)
  have i: "get_legal_moves stuck_board (Some (inactive_player stuck_board)) = Inr []"
    using stuck_moves(2) by (simp add: stuck_board_def)
  from is_game_over_active_first [OF a] a i show ?thesis
    by (simp add: stuck_board_def PLAYER2_def)
qed

section \<open>Coordinates out of range\<close>

text \<open>
  C10.  \<open>box_blocked\<close> does not check its coordinates: whenever the flat index
  \<open>x + y * columns\<close> falls inside the cell list, it answers with the state of the
  cell at that index, which is the cell at column \<open>x mod columns\<close> of row
  \<open>y + x div columns\<close>, also for \<open>x\<close> outside \<open>[0, columns)\<close>.
\<close>

theorem box_blocked_no_bounds_check:
  assumes "0 \<le> offset b x y" and "offset b x y < int (length (board_list b))"
    and "0 < columns b"
  shows "box_blocked b x y =
           Inr ((board_list b ! nat (offset b x y)) AND BOX_BLOCKED_MASK = BOX_BLOCKED_MASK)
         \<and> box_blocked b x y = box_blocked b (x mod columns b) (y + x div columns b)"
proof -
  have "offset b (x mod columns b) (y + x div columns b) = offset b x y"
    by (simp add: offset_def algebra_simps)
  with assms show ?thesis by (simp add: box_blocked_def py_index_def list_slot_def)
qed

theorem box_blocked_no_bounds_check_witness:
  "0 \<le> offset corner_board (- 1) 1
   \<and> offset corner_board (- 1) 1 < int (length (board_list corner_board))
   \<and> 0 < columns corner_board
   \<and> box_blocked corner_board (- 1) 1 = Inr True
   \<and> box_blocked corner_board (- 1) 1 = box_blocked corner_board 1 0"
proof -
  have h: "0 \<le> offset corner_board (- 1) 1"
    "offset corner_board (- 1) 1 < int (length (board_list corner_board))"
    "0 < columns corner_board"
    by (simp_all add: corner_board_def offset_def)
  have c: "(- 1) mod columns corner_board = 1" "1 + (- 1) div columns corner_board = 0"
    by (simp_all add: corner_board_def)
  have v: "box_blocked corner_board 1 0 = Inr True"
    by code_simp
  from box_blocked_no_bounds_check [OF h]
  have "box_blocked corner_board (- 1) 1 = box_blocked corner_board 1 0"
    unfolding c by (rule conjunct2)
  with h v show ?thesis by metis
qed

section \<open>Construction\<close>

text \<open>
  C9, as the code has it.  Constructing a board raises no fault, whatever the
  dimensions: the result has \<open>rows * columns\<close> free cells (none when the
  product is not positive), no player positioned and player 1 active.
\<close>

theorem Board_init_never_raises:
  "\<exists>b. Board_init r c = Inr b \<and> rows b = r \<and> columns b = c
       \<and> board_list b = replicate (nat (r * c)) BOX_CLEAR
       \<and> active_player b = PLAYER1 \<and> inactive_player b = PLAYER2
       \<and> players_position b = [PLAYER1 \<mapsto> None, PLAYER2 \<mapsto> None]"
  by (simp add: Board_init_def clear_board_def py_range_def map_replicate_const)

text \<open>
  C9 as stated fails: \<open>Board(0, 0)\<close> is constructed without a fault, and the
  object answers \<open>get_legal_moves\<close>.
\<close>

theorem Board_init_nonpositive_counterexample:
  "Board_init 0 0 =
     Inr \<lparr>rows = 0, columns = 0, board_list = [], active_player = 1, inactive_player = 2,
          players_position = [1 \<mapsto> None, 2 \<mapsto> None]\<rparr>
   \<and> get_legal_moves
         \<lparr>rows = 0, columns = 0, board_list = [], active_player = 1, inactive_player = 2,
          players_position = [1 \<mapsto> None, 2 \<mapsto> None]\<rparr> None = Inr []"
  by (simp add: Board_init_def clear_board_def py_range_def PLAYER1_def PLAYER2_def
        get_legal_moves_def dict_get_def get_free_boxes_def)

section \<open>Terminal scores\<close>

text \<open>
  C4.  For every board, every winner that is a player and every player \<open>P\<close>,
  each of the four heuristics returns \<open>MAX_SCORE\<close> when the winner is \<open>P\<close>
  and \<open>- MAX_SCORE\<close> otherwise; the board is not consulted and there is no depth
  argument.
\<close>

theorem terminal_scores:
  assumes "winner = PLAYER1 \<or> winner = PLAYER2"
  shows "score_func1 inv_scale b (Some winner) player =
           Inr (if winner = player then MAX_SCORE else - MAX_SCORE)
       \<and> score_func2 b (Some winner) player =
           Inr (if winner = player then MAX_SCORE else - MAX_SCORE)
       \<and> score_func3 b (Some winner) player =
           Inr (if winner = player then MAX_SCORE else - MAX_SCORE)
       \<and> score_func4 inv_scale b (Some winner) player =
           Inr (if winner = player then MAX_SCORE else - MAX_SCORE)"
  using assms
  by (auto simp: score_func1_def score_func2_def score_func3_def score_func4_def truthy_def
        PLAYER1_def PLAYER2_def)

theorem terminal_scores_witness:
  "(PLAYER2 = PLAYER1 \<or> PLAYER2 = PLAYER2)
   \<and> score_func1 (\<lambda>d t. t div d) stuck_board (Some PLAYER2) 1 = Inr (- 10000)
   \<and> score_func2 stuck_board (Some PLAYER2) 2 = Inr 10000
   \<and> score_func3 stuck_board (Some PLAYER2) 1 = Inr (- 10000)
   \<and> score_func4 (\<lambda>d t. t div d) stuck_board (Some PLAYER2) 2 = Inr 10000"
proof -
  have h: "PLAYER2 = PLAYER1 \<or> PLAYER2 = PLAYER2" by simp
  from terminal_scores [OF h, of "\<lambda>d t. t div d" stuck_board 1]
       terminal_scores [OF h, of "\<lambda>d t. t div d" stuck_board 2]
  show ?thesis by (simp add: PLAYER2_def MAX_SCORE_def)
qed

section \<open>Negamax at a leaf\<close>

text \<open>
  C8.  When the board is game-over or the depth is zero, \<open>negamax\<close> returns the
  heuristic's score of the board, with the winner found by the terminal test,
  multiplied by the sign (+1 when the active player is \<open>player\<close>, -1 otherwise),
  and no move.
\<close>

theorem negamax_terminal:
  assumes "is_game_over b = Inr winner" and "truthy winner \<or> depth = 0"
  shows "negamax b depth player score_func =
           (case score_func b winner player of
              Inl e \<Rightarrow> Inl e
            | Inr s \<Rightarrow> Inr (Fin ((if active_player b = player then 1 else - 1) * s), None))"
  using assms by (simp add: negamax.simps)

theorem negamax_terminal_witness:
  "is_game_over stuck_board = Inr (Some 2) \<and> truthy (Some 2)
   \<and> negamax stuck_board 3 2 score_func2 = Inr (Fin (- 10000), None)
   \<and> is_game_over corner_board = Inr None \<and> (0::int) = 0
   \<and> negamax corner_board 0 2 score_func2 = Inr (Fin 0, None)"
proof -
  have t: "truthy (Some 2) \<or> (3::int) = 0" by (simp add: truthy_def)
  have z: "truthy None \<or> (0::int) = 0" by simp
  have s: "score_func2 stuck_board (Some 2) 2 = Inr 10000"
    "score_func2 corner_board None 2 = Inr 0"
    by code_simp+
  from negamax_terminal [OF stuck_over t, of 2 score_func2]
       negamax_terminal [OF corner_not_over z, of 2 score_func2]
  show ?thesis
    using stuck_over corner_not_over s
    by (simp add: truthy_def stuck_board_def corner_board_def)
qed

section \<open>Copy on move\<close>

text \<open>
  The operations on the store compute, for the object they work on, what the
  operations on values compute.
\<close>

lemma box_blocked_s_value: "box_blocked_s s self x y = box_blocked (board_at s self) x y"
  by (simp add: box_blocked_s_def box_blocked_def board_at_def offset_def Let_def)

lemma make_move_s_value:
  "map_sum id (\<lambda>s'. board_at s' self) (make_move_s s self x y) = make_move (board_at s self) x y"
  unfolding make_move_s_def make_move_def box_blocked_s_value
  by (auto simp: Let_def block_box_s_def block_box_def set_position_s_def set_players_s_def
        board_at_def offset_def split: sum.splits)

lemma make_move_copy_s_value:
  "map_sum id (\<lambda>(s', c). board_at s' c) (make_move_copy_s s self x y) =
     make_move_copy (board_at s self) x y"
  unfolding make_move_copy_s_def make_move_copy_def box_blocked_s_value
  by (auto simp: Let_def block_box_s_def block_box_def set_position_s_def set_players_s_def
        pickle_copy_def box_blocked_def board_at_def offset_def split: sum.splits)

lemma make_move_copy_s_frame:
  assumes "make_move_copy_s s self x y = Inr (s', c)" and "a < next_addr s"
  shows "boards s' a = boards s a \<and> lists s' a = lists s a \<and> dicts s' a = dicts s a"
  using assms unfolding make_move_copy_s_def
  by (auto simp: Let_def block_box_s_def set_position_s_def set_players_s_def
        pickle_copy_def split: sum.splits if_splits)

lemma make_move_copy_eq_make_move: "make_move_copy b x y = make_move b x y"
  by (simp add: make_move_copy_def make_move_def Let_def)

lemma make_move_succeeds:
  assumes "box_blocked b x y = Inr False"
  shows "\<exists>nb. make_move b x y = Inr nb"
proof -
  from assms obtain k where "list_slot (length (board_list b)) (offset b x y) = Some k"
    by (auto simp: box_blocked_def py_index_def split: option.splits)
  with assms show ?thesis
    by (simp add: make_move_def Let_def block_box_def py_setitem_def offset_def)
qed

lemma corner_store_value: "board_at corner_store 0 = corner_board"
  by (simp add: board_at_def corner_store_def corner_board_def)

lemma corner_store_clone: "board_at (fst (pickle_copy corner_store 0)) 1 = corner_board"
  by (simp add: board_at_def pickle_copy_def corner_store_def corner_board_def Let_def)

text \<open>
  C5.  For a board object and a move from its \<open>get_legal_moves()\<close>,
  \<open>make_move_copy\<close> returns a new object and leaves the receiver, and every
  object that existed before the call, as it was; the board returned is equal to the
  board that \<open>make_move\<close> with the same move leaves in any equal clone.
\<close>

theorem make_move_copy_leaves_original:
  assumes "allocated s self"
    and "get_legal_moves (board_at s self) None = Inr ms" and "(x, y) \<in> set ms"
    and "board_at t clone = board_at s self"
  shows "\<exists>s' c t'. make_move_copy_s s self x y = Inr (s', c)
           \<and> board_at s' self = board_at s self
           \<and> (\<forall>a<next_addr s. boards s' a = boards s a \<and> lists s' a = lists s a
                                \<and> dicts s' a = dicts s a)
           \<and> make_move_s t clone x y = Inr t'
           \<and> board_at s' c = board_at t' clone"
proof -
  have free: "box_blocked (board_at s self) x y = Inr False"
    using legal_moves_free [OF assms(2), of "(x, y)"] assms(3) by simp
  then obtain nb where nb: "make_move (board_at s self) x y = Inr nb"
    using make_move_succeeds by blast
  from make_move_copy_s_value [of s self x y] nb
  obtain s' c where copy: "make_move_copy_s s self x y = Inr (s', c)" and vc: "board_at s' c = nb"
    by (cases "make_move_copy_s s self x y") (auto simp: make_move_copy_eq_make_move)
  from make_move_s_value [of clone t x y] nb assms(4)
  obtain t' where mv: "make_move_s t clone x y = Inr t'" and vt: "board_at t' clone = nb"
    by (cases "make_move_s t clone x y") auto
  have frame: "\<forall>a<next_addr s. boards s' a = boards s a \<and> lists s' a = lists s a
                                \<and> dicts s' a = dicts s a"
    using make_move_copy_s_frame [OF copy] by blast
  with assms(1) have "board_at s' self = board_at s self"
    by (simp add: board_at_def allocated_def Let_def)
  with copy frame mv vc vt show ?thesis by simp
qed


theorem make_move_copy_leaves_original_witness:
  "allocated corner_store 0
   \<and> get_legal_moves (board_at corner_store 0) None = Inr [(1, 1), (0, 1)]
   \<and> (1, 1) \<in> set [(1, 1), (0, 1 :: int)]
   \<and> board_at (fst (pickle_copy corner_store 0)) 1 = board_at corner_store 0
   \<and> (\<exists>s' c t'. make_move_copy_s corner_store 0 1 1 = Inr (s', c)
         \<and> board_at s' 0 = board_at corner_store 0
         \<and> boards s' 0 = boards corner_store 0
         \<and> lists s' 0 = lists corner_store 0 \<and> dicts s' 0 = dicts corner_store 0
         \<and> make_move_s (fst (pickle_copy corner_store 0)) 1 1 1 = Inr t'
         \<and> board_at s' c = board_at t' 1)"
proof -
  have a: "allocated corner_store 0"
    by (simp add: allocated_def corner_store_def)
  have l: "get_legal_moves (board_at corner_store 0) None = Inr [(1, 1), (0, 1)]"
    by (simp add: corner_store_value corner_moves)
  have m: "(1, 1) \<in> set [(1, 1), (0, 1 :: int)]" by simp
  have c: "board_at (fst (pickle_copy corner_store 0)) 1 = board_at corner_store 0"
    by (simp only: corner_store_value corner_store_clone)
  have n: "0 < next_addr corner_store"
    by (simp add: corner_store_def)
  from make_move_copy_leaves_original [OF a l m c] a l m c n show ?thesis by blast
qed

section \<open>Alpha-beta without cutoffs\<close>

lemma traced_loop_flag:
  "abnegamax_traced_loop b depth player beta sf ms alpha bs bm pruned = Inr (r, f)
   \<Longrightarrow> pruned \<Longrightarrow> f"
proof (induction ms arbitrary: alpha bs bm pruned)
  case Nil
  then show ?case by (simp add: abnegamax_traced_loop.simps)
next
  case (Cons move rest)
  from Cons.prems(1) obtain nb rc where
    "make_move_copy b (fst move) (snd move) = Inr nb"
    and "abnegamax_traced nb (depth - 1) player (neg_score beta) (neg_score alpha) sf = Inr rc"
    by (auto simp: abnegamax_traced_loop.simps split: sum.splits)
  with Cons.prems(1) show ?case
    using Cons.IH [of _ _ _ "pruned \<or> snd rc"] Cons.prems(2)
    by (auto simp: abnegamax_traced_loop.simps Let_def split: if_splits)
qed

lemma abnegamax_traced_result:
  "map_sum id fst (abnegamax_traced b depth player alpha beta sf) =
     abnegamax b depth player alpha beta sf"
  "map_sum id fst (abnegamax_traced_loop b depth player beta sf ms alpha bs bm pruned) =
     abnegamax_loop b depth player beta sf ms alpha bs bm"
proof (induction b depth player alpha beta sf and b depth player beta sf ms alpha bs bm pruned
       rule: abnegamax_traced_abnegamax_traced_loop.induct)
  case (1 b depth player alpha beta score_func)
  then show ?case
    by (simp add: abnegamax_traced.simps abnegamax.simps Let_def split: sum.splits)
next
  case (2 b depth player beta score_func alpha best_score best_move pruned)
  then show ?case
    by (simp add: abnegamax_traced_loop.simps abnegamax_loop.simps)
next
  case (3 b depth player beta score_func move rest alpha best_score best_move pruned)
  show ?case
  proof (cases "make_move_copy b (fst move) (snd move)")
    case (Inl e)
    then show ?thesis by (simp add: abnegamax_traced_loop.simps abnegamax_loop.simps)
  next
    case (Inr nb)
    note nb = this
    show ?thesis
    proof (cases "abnegamax_traced nb (depth - 1) player (neg_score beta) (neg_score alpha)
                    score_func")
      case (Inl e)
      with nb "3.IH"(1) [OF nb] show ?thesis
        by (cases "abnegamax nb (depth - 1) player (neg_score beta) (neg_score alpha) score_func")
           (simp_all add: abnegamax_traced_loop.simps abnegamax_loop.simps)
    next
      case (Inr rc)
      with "3.IH"(1) [OF nb]
      have ab: "abnegamax nb (depth - 1) player (neg_score beta) (neg_score alpha) score_func
                  = Inr (fst rc)"
        by (cases "abnegamax nb (depth - 1) player (neg_score beta) (neg_score alpha) score_func")
           simp_all
      from "3.IH"(2) [OF nb Inr refl refl refl refl] nb Inr ab show ?thesis
        by (simp add: abnegamax_traced_loop.simps abnegamax_loop.simps Let_def)
    qed
  qed
qed


lemma no_cutoff_negamax:
  "abnegamax_traced b depth player alpha beta sf = Inr (r, False)
     \<Longrightarrow> negamax b depth player sf = Inr r"
  "abnegamax_traced_loop b depth player beta sf ms alpha bs bm pruned = Inr (r, False)
     \<Longrightarrow> negamax_loop b depth player sf ms bs bm = Inr r"
proof (induction b depth player alpha beta sf and b depth player beta sf ms alpha bs bm pruned
       arbitrary: r and r rule: abnegamax_traced_abnegamax_traced_loop.induct)
  case (1 b depth player alpha beta score_func)
  from "1.prems" obtain winner where w: "is_game_over b = Inr winner"
    by (cases "is_game_over b") (simp_all add: abnegamax_traced.simps)
  show ?case
  proof (cases "truthy winner \<or> depth = 0")
    case True
    with w "1.prems" show ?thesis
      by (cases "score_func b winner player")
         (auto simp: abnegamax_traced.simps negamax.simps)
  next
    case False
    from False w "1.prems" obtain moves where m: "get_legal_moves b None = Inr moves"
      by (cases "get_legal_moves b None") (simp_all add: abnegamax_traced.simps)
    from False w m "1.prems"
    have "abnegamax_traced_loop b depth player beta score_func moves alpha NegInf None False
            = Inr (r, False)"
      by (simp add: abnegamax_traced.simps)
    from "1.IH" [OF refl w False m this] False w m show ?thesis
      by (simp add: negamax.simps)
  qed
next
  case (2 b depth player beta score_func alpha best_score best_move pruned)
  then show ?case
    by (simp add: abnegamax_traced_loop.simps negamax_loop.simps)
next
  case (3 b depth player beta score_func move rest alpha best_score best_move pruned)
  from "3.prems" obtain nb where nb: "make_move_copy b (fst move) (snd move) = Inr nb"
    by (cases "make_move_copy b (fst move) (snd move)")
       (simp_all add: abnegamax_traced_loop.simps)
  from "3.prems" nb obtain rc where
    rc: "abnegamax_traced nb (depth - 1) player (neg_score beta) (neg_score alpha) score_func
           = Inr rc"
    by (cases "abnegamax_traced nb (depth - 1) player (neg_score beta) (neg_score alpha)
                 score_func")
       (simp_all add: abnegamax_traced_loop.simps)
  define cs where "cs = neg_score (fst (fst rc))"
  define bs' where "bs' = (if score_less best_score cs then cs else best_score)"
  define bm' where "bm' = (if score_less best_score cs then Some move else best_move)"
  define alpha' where "alpha' = score_max alpha cs"
  from "3.prems" nb rc have nocut: "\<not> score_le beta alpha'"
    and rest: "abnegamax_traced_loop b depth player beta score_func rest alpha' bs' bm'
                 (pruned \<or> snd rc) = Inr (r, False)"
    by (auto simp: abnegamax_traced_loop.simps Let_def cs_def bs'_def bm'_def alpha'_def
          split: if_splits)
  from traced_loop_flag [OF rest] have "\<not> snd rc" by blast
  with rc have "abnegamax_traced nb (depth - 1) player (neg_score beta) (neg_score alpha)
                  score_func = Inr (fst rc, False)"
    by (cases rc) simp
  from "3.IH"(1) [OF nb this]
  have child: "negamax nb (depth - 1) player score_func = Inr (fst rc)" .
  from "3.IH"(2) [OF nb rc cs_def bs'_def bm'_def alpha'_def nocut rest]
  have "negamax_loop b depth player score_func rest bs' bm' = Inr r" .
  with nb child show ?case
    unfolding bs'_def bm'_def cs_def
    by (auto simp: negamax_loop.simps Let_def)
qed

text \<open>
  C2.  When no cutoff (\<open>alpha >= beta\<close>) is taken anywhere in the search started
  with the widest window, \<open>abnegamax\<close> returns the score and move that
  \<open>negamax\<close> returns on the same board, depth, player and heuristic.
\<close>

theorem abnegamax_no_cutoff_eq_negamax:
  assumes "abnegamax_traced b depth player NegInf PosInf score_func = Inr (r, False)"
  shows "abnegamax b depth player NegInf PosInf score_func = negamax b depth player score_func"
proof -
  from abnegamax_traced_result(1) [of b depth player NegInf PosInf score_func] assms
  have "abnegamax b depth player NegInf PosInf score_func = Inr r" by simp
  with no_cutoff_negamax(1) [OF assms] show ?thesis by simp
qed

theorem abnegamax_no_cutoff_eq_negamax_witness:
  "abnegamax_traced corner_board 1 1 NegInf PosInf score_func2 = Inr ((Fin 0, Some (1, 1)), False)
   \<and> abnegamax corner_board 1 1 NegInf PosInf score_func2 = negamax corner_board 1 1 score_func2
   \<and> negamax corner_board 1 1 score_func2 = Inr (Fin 0, Some (1, 1))"
proof -
  have t: "abnegamax_traced corner_board 1 1 NegInf PosInf score_func2
             = Inr ((Fin 0, Some (1, 1)), False)"
    by code_simp
  have n: "negamax corner_board 1 1 score_func2 = Inr (Fin 0, Some (1, 1))"
    by code_simp
  from abnegamax_no_cutoff_eq_negamax [OF t] t n show ?thesis by simp
qed

section \<open>The pessimism-aware search\<close>

lemma score_le_not_less: "score_le s t \<Longrightarrow> \<not> score_less t s"
  by (cases s; cases t) (auto simp: score_le_def)

lemma losing_not_optimistic: "losing res \<Longrightarrow> \<not> optimistic res"
  by (cases res) (auto simp: losing_def optimistic_def score_le_not_less)

lemma retry_loop_exhausted:
  assumes "\<forall>k\<in>set ds. losing (abnegamax b k player alpha beta sf)" and "ds \<noteq> []"
  shows "retry_loop b player alpha beta sf ds bs bm = abnegamax b (last ds) player alpha beta sf"
  using assms
proof (induction ds arbitrary: bs bm)
  case Nil
  then show ?case by simp
next
  case (Cons k ds)
  from Cons.prems(1) obtain r where r: "abnegamax b k player alpha beta sf = Inr r"
    and l: "score_le (fst r) (Fin (- MAX_SCORE))"
    by (cases "abnegamax b k player alpha beta sf") (auto simp: losing_def)
  from l have nl: "\<not> score_less (Fin (- MAX_SCORE)) (fst r)" by (rule score_le_not_less)
  show ?case
  proof (cases "ds = []")
    case True
    with r nl show ?thesis by simp
  next
    case False
    with Cons.IH [of "fst r" "snd r"] Cons.prems(1) r nl show ?thesis by simp
  qed
qed

lemma retry_loop_first_optimistic:
  assumes "\<forall>k\<in>set pre. losing (abnegamax b k player alpha beta sf)"
    and "optimistic (abnegamax b d player alpha beta sf)"
  shows "retry_loop b player alpha beta sf (pre @ d # post) bs bm =
           abnegamax b d player alpha beta sf"
  using assms(1)
proof (induction pre arbitrary: bs bm)
  case Nil
  from assms(2) show ?case
    by (cases "abnegamax b d player alpha beta sf") (auto simp: optimistic_def)
next
  case (Cons k pre)
  from Cons.prems obtain r where r: "abnegamax b k player alpha beta sf = Inr r"
    and l: "score_le (fst r) (Fin (- MAX_SCORE))"
    by (cases "abnegamax b k player alpha beta sf") (auto simp: losing_def)
  from l have nl: "\<not> score_less (Fin (- MAX_SCORE)) (fst r)" by (rule score_le_not_less)
  with Cons.IH [of "fst r" "snd r"] Cons.prems r show ?case by simp
qed

lemma set_retry_depths: "set (retry_depths depth) = {k. 1 \<le> k \<and> k < depth}"
proof -
  have "int ` {Suc 0..<nat depth} = {k. 1 \<le> k \<and> k < depth}"
  proof (rule set_eqI)
    fix k :: int
    show "k \<in> int ` {Suc 0..<nat depth} \<longleftrightarrow> k \<in> {k. 1 \<le> k \<and> k < depth}"
    proof
      assume "k \<in> int ` {Suc 0..<nat depth}"
      then show "k \<in> {k. 1 \<le> k \<and> k < depth}" by auto
    next
      assume "k \<in> {k. 1 \<le> k \<and> k < depth}"
      then have "nat k \<in> {Suc 0..<nat depth}" and "k = int (nat k)" by auto
      then show "k \<in> int ` {Suc 0..<nat depth}" by (rule_tac image_eqI)
    qed
  qed
  then show ?thesis by (simp add: retry_depths_def)
qed

lemma last_retry_depths: "1 < depth \<Longrightarrow> last (retry_depths depth) = 1"
  by (simp add: retry_depths_def last_rev hd_map)

lemma retry_depths_split:
  assumes "1 \<le> d" and "d < depth"
  shows "\<exists>pre post. retry_depths depth = pre @ d # post \<and> set pre = {k. d < k \<and> k < depth}"
proof -
  have le: "1 \<le> nat d" and less: "nat d < nat depth"
    using assms by simp_all
  have eq: "nat d + (nat depth - nat d) = nat depth"
    using assms by linarith
  have "[1..<nat d + (nat depth - nat d)] =
          [1..<nat d] @ [nat d..<nat d + (nat depth - nat d)]"
    using le by (rule upt_add_eq_append)
  then have "[1..<nat depth] = [1..<nat d] @ [nat d..<nat depth]"
    unfolding eq .
  moreover have "[nat d..<nat depth] = nat d # [Suc (nat d)..<nat depth]"
    using less by (rule upt_conv_Cons)
  ultimately have "[1..<nat depth] = [1..<nat d] @ nat d # [Suc (nat d)..<nat depth]"
    by simp
  then have "retry_depths depth =
      rev (map int [Suc (nat d)..<nat depth]) @ d # rev (map int [1..<nat d])"
    using assms by (simp add: retry_depths_def)
  moreover have "set (rev (map int [Suc (nat d)..<nat depth])) = {k. d < k \<and> k < depth}"
  proof (rule set_eqI)
    fix k :: int
    show "k \<in> set (rev (map int [Suc (nat d)..<nat depth])) \<longleftrightarrow> k \<in> {k. d < k \<and> k < depth}"
    proof
      assume "k \<in> set (rev (map int [Suc (nat d)..<nat depth]))"
      then show "k \<in> {k. d < k \<and> k < depth}" using assms by auto
    next
      assume "k \<in> {k. d < k \<and> k < depth}"
      then have "nat k \<in> {Suc (nat d)..<nat depth}" and "k = int (nat k)" using assms by auto
      then have "k \<in> int ` {Suc (nat d)..<nat depth}" by (rule_tac image_eqI)
      then show "k \<in> set (rev (map int [Suc (nat d)..<nat depth]))" by simp
    qed
  qed
  ultimately show ?thesis by blast
qed


text \<open>
  C1, as the code has it.  \<open>power_abnegamax\<close> runs \<open>abnegamax\<close> at the
  requested depth and returns its result when the score is \<open>> -MAX_SCORE\<close>.
  Otherwise it runs the depths \<open>depth - 1, ..., 1\<close> in descending order and
  returns the result of the first whose score is \<open>> -MAX_SCORE\<close>.  When none is,
  it returns the result of the last depth tried, depth 1; only for \<open>depth <= 1\<close>,
  where nothing is tried again, is that the result of the requested depth.
\<close>

theorem power_abnegamax_fallback:
  "(optimistic (abnegamax b depth player alpha beta sf) \<longrightarrow>
      power_abnegamax b depth player alpha beta sf = abnegamax b depth player alpha beta sf)
   \<and> (losing (abnegamax b depth player alpha beta sf) \<and> 1 \<le> d \<and> d < depth
        \<and> optimistic (abnegamax b d player alpha beta sf)
        \<and> (\<forall>k. d < k \<and> k < depth \<longrightarrow> losing (abnegamax b k player alpha beta sf))
      \<longrightarrow> power_abnegamax b depth player alpha beta sf = abnegamax b d player alpha beta sf)
   \<and> (losing (abnegamax b depth player alpha beta sf)
        \<and> (\<forall>k. 1 \<le> k \<and> k < depth \<longrightarrow> losing (abnegamax b k player alpha beta sf))
      \<longrightarrow> power_abnegamax b depth player alpha beta sf =
            (if depth \<le> 1 then abnegamax b depth player alpha beta sf
             else abnegamax b 1 player alpha beta sf))"
proof (intro conjI impI)
  assume "optimistic (abnegamax b depth player alpha beta sf)"
  then show "power_abnegamax b depth player alpha beta sf =
               abnegamax b depth player alpha beta sf"
    using score_le_not_less
    by (cases "abnegamax b depth player alpha beta sf")
       (auto simp: optimistic_def power_abnegamax_def)
next
  assume a: "losing (abnegamax b depth player alpha beta sf) \<and> 1 \<le> d \<and> d < depth
        \<and> optimistic (abnegamax b d player alpha beta sf)
        \<and> (\<forall>k. d < k \<and> k < depth \<longrightarrow> losing (abnegamax b k player alpha beta sf))"
  then obtain r where r: "abnegamax b depth player alpha beta sf = Inr r"
    and l: "score_le (fst r) (Fin (- MAX_SCORE))"
    by (cases "abnegamax b depth player alpha beta sf") (auto simp: losing_def)
  from a retry_depths_split [of d depth] obtain pre post where
    sp: "retry_depths depth = pre @ d # post" and pre: "set pre = {k. d < k \<and> k < depth}"
    by blast
  from a pre have "\<forall>k\<in>set pre. losing (abnegamax b k player alpha beta sf)" by simp
  from retry_loop_first_optimistic [OF this, of d post "fst r" "snd r"] a r l sp
  show "power_abnegamax b depth player alpha beta sf = abnegamax b d player alpha beta sf"
    by (simp add: power_abnegamax_def)
next
  assume a: "losing (abnegamax b depth player alpha beta sf)
        \<and> (\<forall>k. 1 \<le> k \<and> k < depth \<longrightarrow> losing (abnegamax b k player alpha beta sf))"
  then obtain r where r: "abnegamax b depth player alpha beta sf = Inr r"
    and l: "score_le (fst r) (Fin (- MAX_SCORE))"
    by (cases "abnegamax b depth player alpha beta sf") (auto simp: losing_def)
  show "power_abnegamax b depth player alpha beta sf =
            (if depth \<le> 1 then abnegamax b depth player alpha beta sf
             else abnegamax b 1 player alpha beta sf)"
  proof (cases "depth \<le> 1")
    case True
    then have "retry_depths depth = []" by (simp add: retry_depths_def)
    with True r l show ?thesis by (simp add: power_abnegamax_def)
  next
    case False
    then have ne: "retry_depths depth \<noteq> []" by (simp add: retry_depths_def)
    from a have "\<forall>k\<in>set (retry_depths depth). losing (abnegamax b k player alpha beta sf)"
      by (simp add: set_retry_depths)
    from retry_loop_exhausted [OF this ne, of "fst r" "snd r"] False r l
    show ?thesis by (simp add: power_abnegamax_def last_retry_depths)
  qed
qed

lemma corner_runs:
  "abnegamax corner_board 1 1 NegInf PosInf score_func2 = Inr (Fin 0, Some (1, 1))"
  "abnegamax corner_board 2 1 NegInf PosInf score_func2 = Inr (Fin (- 10000), Some (1, 1))"
  "abnegamax corner_board 3 1 NegInf PosInf score_func2 = Inr (Fin (- 10000), Some (1, 1))"
  "abnegamax corner_board 1 1 NegInf PosInf gloomy = Inr (Fin (- 20000), Some (1, 1))"
  "abnegamax corner_board 2 1 NegInf PosInf gloomy = Inr (Fin (- 10000), Some (1, 1))"
  by code_simp+

text \<open>
  C1 as stated fails: on \<open>corner_board\<close> with the heuristic \<open>gloomy\<close> and
  depth 2 the only depth tried again, depth 1, is losing too, and the result returned
  is that of depth 1, not that of depth 2.
\<close>

theorem power_abnegamax_original_counterexample:
  "abnegamax corner_board 2 1 NegInf PosInf gloomy = Inr (Fin (- 10000), Some (1, 1))
   \<and> abnegamax corner_board 1 1 NegInf PosInf gloomy = Inr (Fin (- 20000), Some (1, 1))
   \<and> retry_depths 2 = [1]
   \<and> power_abnegamax corner_board 2 1 NegInf PosInf gloomy = Inr (Fin (- 20000), Some (1, 1))
   \<and> power_abnegamax corner_board 2 1 NegInf PosInf gloomy
         \<noteq> abnegamax corner_board 2 1 NegInf PosInf gloomy"
  by code_simp

theorem power_abnegamax_fallback_witness:
  "optimistic (abnegamax corner_board 1 1 NegInf PosInf score_func2)
   \<and> power_abnegamax corner_board 1 1 NegInf PosInf score_func2 = Inr (Fin 0, Some (1, 1))
   \<and> losing (abnegamax corner_board 3 1 NegInf PosInf score_func2)
   \<and> losing (abnegamax corner_board 2 1 NegInf PosInf score_func2)
   \<and> power_abnegamax corner_board 3 1 NegInf PosInf score_func2 = Inr (Fin 0, Some (1, 1))
   \<and> losing (abnegamax corner_board 2 1 NegInf PosInf gloomy)
   \<and> losing (abnegamax corner_board 1 1 NegInf PosInf gloomy)
   \<and> power_abnegamax corner_board 2 1 NegInf PosInf gloomy = Inr (Fin (- 20000), Some (1, 1))"
proof -
  have o1: "optimistic (abnegamax corner_board 1 1 NegInf PosInf score_func2)"
    by (simp add: corner_runs optimistic_def MAX_SCORE_def)
  have l3: "losing (abnegamax corner_board 3 1 NegInf PosInf score_func2)"
    by (simp add: corner_runs losing_def MAX_SCORE_def score_le_def)
  have l2: "\<forall>k. 1 < k \<and> k < 3 \<longrightarrow> losing (abnegamax corner_board k 1 NegInf PosInf score_func2)"
  proof (intro allI impI)
    fix k :: int
    assume "1 < k \<and> k < 3"
    then have "k = 2" by simp
    then show "losing (abnegamax corner_board k 1 NegInf PosInf score_func2)"
      by (simp add: corner_runs losing_def MAX_SCORE_def score_le_def)
  qed
  have g2: "losing (abnegamax corner_board 2 1 NegInf PosInf gloomy)"
    by (simp add: corner_runs losing_def MAX_SCORE_def score_le_def)
  have g1: "\<forall>k. 1 \<le> k \<and> k < 2 \<longrightarrow> losing (abnegamax corner_board k 1 NegInf PosInf gloomy)"
  proof (intro allI impI)
    fix k :: int
    assume "1 \<le> k \<and> k < 2"
    then have "k = 1" by simp
    then show "losing (abnegamax corner_board k 1 NegInf PosInf gloomy)"
      by (simp add: corner_runs losing_def MAX_SCORE_def score_le_def)
  qed
  from power_abnegamax_fallback [of corner_board 1 1 NegInf PosInf score_func2 0] o1
  have a: "power_abnegamax corner_board 1 1 NegInf PosInf score_func2 = Inr (Fin 0, Some (1, 1))"
    by (simp add: corner_runs)
  from power_abnegamax_fallback [of corner_board 3 1 NegInf PosInf score_func2 1] o1 l3 l2
  have b: "power_abnegamax corner_board 3 1 NegInf PosInf score_func2 = Inr (Fin 0, Some (1, 1))"
    by (simp add: corner_runs)
  from power_abnegamax_fallback [of corner_board 2 1 NegInf PosInf gloomy 0] g2 g1
  have c: "power_abnegamax corner_board 2 1 NegInf PosInf gloomy = Inr (Fin (- 20000), Some (1, 1))"
    by (simp add: corner_runs)
  from l2 have l2': "losing (abnegamax corner_board 2 1 NegInf PosInf score_func2)" by simp
  from g1 have g1': "losing (abnegamax corner_board 1 1 NegInf PosInf gloomy)" by simp
  from o1 l3 l2' g2 g1' a b c show ?thesis by blast
qed

section \<open>Heuristic scores of boards in play\<close>

lemma box_blocked_in_grid:
  assumes "full_list b" and "0 \<le> x" and "x < columns b" and "0 \<le> y" and "y < rows b"
  shows "\<exists>bl. box_blocked b x y = Inr bl"
proof -
  have c: "0 < columns b" using assms by linarith
  have "0 \<le> y * columns b" using assms(4) c by simp
  then have lo: "0 \<le> offset b x y" using assms(2) by (simp add: offset_def)
  have "(y + 1) * columns b \<le> rows b * columns b"
    using assms(5) c by (intro mult_right_mono) simp_all
  then have "x + y * columns b < rows b * columns b"
    using assms(3) by (simp add: algebra_simps)
  then have hi: "offset b x y < int (length (board_list b))"
    using assms(1) by (simp add: offset_def full_list_def)
  from lo hi show ?thesis
    by (simp add: box_blocked_def py_index_def list_slot_def)
qed

lemma ray_loop_returns:
  assumes "full_list b" and "dx \<noteq> 0 \<or> dy \<noteq> 0"
  shows "\<exists>ms. ray_loop b dx dy x y moves = Inr ms"
  using assms
proof (induction b dx dy x y moves rule: ray_loop.induct)
  case (1 b dx dy x y moves)
  show ?case
  proof (cases "(0 \<le> x + dx \<and> x + dx < columns b) \<and> (0 \<le> y + dy \<and> y + dy < rows b)")
    case False
    with "1.prems" show ?thesis by (subst ray_loop.simps) auto
  next
    case True
    with box_blocked_in_grid [OF "1.prems"(1), of "x + dx" "y + dy"]
    obtain bl where bl: "box_blocked b (x + dx) (y + dy) = Inr bl" by blast
    show ?thesis
    proof (cases bl)
      case True
      with bl \<open>(0 \<le> x + dx \<and> x + dx < columns b) \<and> (0 \<le> y + dy \<and> y + dy < rows b)\<close> "1.prems"
      show ?thesis by (subst ray_loop.simps) auto
    next
      case False
      from "1.IH" [OF _ \<open>(0 \<le> x + dx \<and> x + dx < columns b) \<and> (0 \<le> y + dy \<and> y + dy < rows b)\<close> bl False "1.prems"]
        "1.prems"(2)
      obtain ms where "ray_loop b dx dy (x + dx) (y + dy) (moves @ [(x + dx, y + dy)]) = Inr ms"
        by blast
      with bl False \<open>(0 \<le> x + dx \<and> x + dx < columns b) \<and> (0 \<le> y + dy \<and> y + dy < rows b)\<close> "1.prems"
      show ?thesis by (subst ray_loop.simps) auto
    qed
  qed
qed

lemma ray_loop_length:
  assumes "ray_loop b dx dy x y moves = Inr ms"
    and "0 \<le> g x y"
    and "\<And>u v. g (u + dx) (v + dy) = g u v - 1"
    and "\<And>u v. (0 \<le> u \<and> u < columns b) \<and> (0 \<le> v \<and> v < rows b) \<Longrightarrow> 0 \<le> g u v"
  shows "int (length ms) \<le> int (length moves) + g x y"
  using assms
proof (induction b dx dy x y moves rule: ray_loop.induct)
  case (1 b dx dy x y moves)
  note step = "1.prems"(3) and inside = "1.prems"(4)
  show ?case
  proof (cases "(0 \<le> x + dx \<and> x + dx < columns b) \<and> (0 \<le> y + dy \<and> y + dy < rows b)")
    case False
    with "1.prems"(1) have "ms = moves"
      by (subst (asm) ray_loop.simps) (auto split: if_splits)
    with "1.prems"(2) show ?thesis by simp
  next
    case True
    note inb = this
    from "1.prems"(1) have nz: "\<not> (dx = 0 \<and> dy = 0)"
      by (subst (asm) ray_loop.simps) (auto split: if_splits)
    from "1.prems"(1) nz inb obtain bl where bl: "box_blocked b (x + dx) (y + dy) = Inr bl"
      by (subst (asm) ray_loop.simps) (cases "box_blocked b (x + dx) (y + dy)", simp_all)
    show ?thesis
    proof (cases bl)
      case True
      with "1.prems"(1) nz inb bl have "ms = moves"
        by (subst (asm) ray_loop.simps) simp
      with "1.prems"(2) show ?thesis by simp
    next
      case False
      with "1.prems"(1) nz inb bl
      have rec: "ray_loop b dx dy (x + dx) (y + dy) (moves @ [(x + dx, y + dy)]) = Inr ms"
        by (subst (asm) ray_loop.simps) simp
      have g0: "0 \<le> g (x + dx) (y + dy)" using inside [OF inb] .
      from "1.IH" [OF nz inb bl False rec g0 step inside]
      have "int (length ms) \<le> int (length (moves @ [(x + dx, y + dy)])) + g (x + dx) (y + dy)" .
      with step [of x y] show ?thesis by simp
    qed
  qed
qed

lemma ray_loop_room:
  assumes "ray_loop b dx dy x y moves = Inr ms" and "(dx, dy) \<in> set dirs_deltas"
    and "in_grid b (x, y)"
  shows "int (length ms) \<le> int (length moves) + ray_room b dx dy x y"
proof -
  have xs: "dx = 1 \<Longrightarrow> int (length ms) \<le> int (length moves) + (columns b - 1 - x)"
    using assms(1,3) by (intro ray_loop_length [where g = "\<lambda>u v. columns b - 1 - u"])
      (auto simp: in_grid_def)
  have xm: "dx = - 1 \<Longrightarrow> int (length ms) \<le> int (length moves) + x"
    using assms(1,3) by (intro ray_loop_length [where g = "\<lambda>u v. u"])
      (auto simp: in_grid_def)
  have ys: "dy = 1 \<Longrightarrow> int (length ms) \<le> int (length moves) + (rows b - 1 - y)"
    using assms(1,3) by (intro ray_loop_length [where g = "\<lambda>u v. rows b - 1 - v"])
      (auto simp: in_grid_def)
  have ym: "dy = - 1 \<Longrightarrow> int (length ms) \<le> int (length moves) + y"
    using assms(1,3) by (intro ray_loop_length [where g = "\<lambda>u v. v"])
      (auto simp: in_grid_def)
  from assms(2) have "(dx = 1 \<or> dx = - 1 \<or> dx = 0) \<and> (dy = 1 \<or> dy = - 1 \<or> dy = 0)
      \<and> (dx \<noteq> 0 \<or> dy \<noteq> 0)"
    by (auto simp: dirs_deltas_def)
  with xs xm ys ym show ?thesis
    by (auto simp: ray_room_def Let_def)
qed


lemma rays_returns:
  assumes "full_list b" and "(0, 0) \<notin> set ds"
  shows "\<exists>ms. rays b loc ds moves = Inr ms"
  using assms(2)
proof (induction ds arbitrary: moves)
  case Nil
  then show ?case by simp
next
  case (Cons d ds)
  from Cons.prems have "fst d \<noteq> 0 \<or> snd d \<noteq> 0" by (cases d) auto
  from ray_loop_returns [OF assms(1) this, of "fst loc" "snd loc" moves]
  obtain m1 where m1: "ray_loop b (fst d) (snd d) (fst loc) (snd loc) moves = Inr m1" by blast
  from Cons.IH [of m1] Cons.prems obtain ms where "rays b loc ds m1 = Inr ms" by auto
  with m1 show ?case by simp
qed

lemma rays_length:
  assumes "in_grid b loc" and "set ds \<subseteq> set dirs_deltas"
    and "rays b loc ds moves = Inr ms"
  shows "int (length ms) \<le>
           int (length moves) + (\<Sum>d\<leftarrow>ds. ray_room b (fst d) (snd d) (fst loc) (snd loc))"
  using assms(2,3)
proof (induction ds arbitrary: moves)
  case Nil
  then show ?case by simp
next
  case (Cons d ds)
  from Cons.prems(2) obtain m1 where
    m1: "ray_loop b (fst d) (snd d) (fst loc) (snd loc) moves = Inr m1"
    and rest: "rays b loc ds m1 = Inr ms"
    by (cases "ray_loop b (fst d) (snd d) (fst loc) (snd loc) moves") simp_all
  from Cons.prems(1) have d: "(fst d, snd d) \<in> set dirs_deltas" by simp
  from assms(1) have "in_grid b (fst loc, snd loc)" by simp
  from ray_loop_room [OF m1 d this]
  have "int (length m1) \<le> int (length moves) + ray_room b (fst d) (snd d) (fst loc) (snd loc)" .
  moreover from Cons.IH [OF _ rest] Cons.prems(1)
  have "int (length ms) \<le>
          int (length m1) + (\<Sum>d\<leftarrow>ds. ray_room b (fst d) (snd d) (fst loc) (snd loc))"
    by simp
  ultimately show ?case by simp
qed

lemma min_le_mult: "0 \<le> a \<Longrightarrow> 0 \<le> b \<Longrightarrow> min a b \<le> a * (b::int)"
proof -
  assume a: "0 \<le> a" and b: "0 \<le> b"
  show ?thesis
  proof (cases "b = 0")
    case True
    with a show ?thesis by simp
  next
    case False
    with b have "1 \<le> b" by simp
    with a have "a * 1 \<le> a * b" by (intro mult_left_mono) simp_all
    then show ?thesis by simp
  qed
qed

lemma room_total:
  assumes "in_grid b (x, y)"
  shows "(\<Sum>d\<leftarrow>dirs_deltas. ray_room b (fst d) (snd d) x y) \<le> rows b * columns b - 1"
proof -
  define X X' Y Y' where "X = x" and "X' = columns b - 1 - x" and "Y = y"
    and "Y' = rows b - 1 - y"
  have nn: "0 \<le> X" "0 \<le> X'" "0 \<le> Y" "0 \<le> Y'"
    using assms by (simp_all add: in_grid_def X_def X'_def Y_def Y'_def)
  have s: "(\<Sum>d\<leftarrow>dirs_deltas. ray_room b (fst d) (snd d) x y) =
             min X Y + Y + min X' Y + X' + min X' Y' + Y' + min X Y' + X"
    by (simp add: dirs_deltas_def ray_room_def Let_def X_def X'_def Y_def Y'_def)
  have p: "min X Y \<le> X * Y" "min X' Y \<le> X' * Y" "min X' Y' \<le> X' * Y'" "min X Y' \<le> X * Y'"
    using nn by (simp_all add: min_le_mult)
  have "rows b * columns b = (Y + Y' + 1) * (X + X' + 1)"
    by (simp add: X_def X'_def Y_def Y'_def)
  also have "\<dots> = X * Y + X' * Y + X' * Y' + X * Y' + X + X' + Y + Y' + 1"
    by (simp add: algebra_simps)
  finally show ?thesis using s p by linarith
qed

lemma legal_moves_bound:
  assumes "full_list b" and "players_position b p = Some (Some loc)" and "in_grid b loc"
  shows "\<exists>ms. get_legal_moves b (Some p) = Inr ms
              \<and> int (length ms) \<le> rows b * columns b - 1"
proof -
  have "(0, 0) \<notin> set dirs_deltas" by (simp add: dirs_deltas_def)
  from rays_returns [OF assms(1) this, of loc "[]"]
  obtain ms where ms: "rays b loc dirs_deltas [] = Inr ms" by blast
  from rays_length [OF assms(3) subset_refl ms]
  have "int (length ms) \<le>
          (\<Sum>d\<leftarrow>dirs_deltas. ray_room b (fst d) (snd d) (fst loc) (snd loc))"
    by simp
  also have "\<dots> \<le> rows b * columns b - 1"
    using room_total [of b "fst loc" "snd loc"] assms(3) by simp
  finally have "int (length ms) \<le> rows b * columns b - 1" .
  with ms assms(2) show ?thesis
    by (simp add: get_legal_moves_def dict_get_def)
qed


lemma ray_loop_keeps:
  "ray_loop b dx dy x y moves = Inr ms \<Longrightarrow> set moves \<subseteq> set ms"
proof (induction b dx dy x y moves rule: ray_loop.induct)
  case (1 b dx dy x y moves)
  show ?case
  proof (cases "(0 \<le> x + dx \<and> x + dx < columns b) \<and> (0 \<le> y + dy \<and> y + dy < rows b)")
    case False
    with "1.prems" have "ms = moves"
      by (subst (asm) ray_loop.simps) (auto split: if_splits)
    then show ?thesis by simp
  next
    case True
    note inb = this
    from "1.prems" have nz: "\<not> (dx = 0 \<and> dy = 0)"
      by (subst (asm) ray_loop.simps) (auto split: if_splits)
    from "1.prems" nz inb obtain bl where bl: "box_blocked b (x + dx) (y + dy) = Inr bl"
      by (subst (asm) ray_loop.simps) (cases "box_blocked b (x + dx) (y + dy)", simp_all)
    show ?thesis
    proof (cases bl)
      case True
      with "1.prems" nz inb bl have "ms = moves"
        by (subst (asm) ray_loop.simps) simp
      then show ?thesis by simp
    next
      case False
      with "1.prems" nz inb bl
      have "ray_loop b dx dy (x + dx) (y + dy) (moves @ [(x + dx, y + dy)]) = Inr ms"
        by (subst (asm) ray_loop.simps) simp
      from "1.IH" [OF nz inb bl False this] show ?thesis by simp
    qed
  qed
qed

lemma ray_loop_first_step:
  assumes "ray_loop b dx dy x y moves = Inr ms"
    and "(0 \<le> x + dx \<and> x + dx < columns b) \<and> (0 \<le> y + dy \<and> y + dy < rows b)"
    and "box_blocked b (x + dx) (y + dy) = Inr False"
  shows "(x + dx, y + dy) \<in> set ms"
proof -
  from assms(1) have nz: "\<not> (dx = 0 \<and> dy = 0)"
    by (subst (asm) ray_loop.simps) (auto split: if_splits)
  with assms have "ray_loop b dx dy (x + dx) (y + dy) (moves @ [(x + dx, y + dy)]) = Inr ms"
    by (subst (asm) ray_loop.simps) simp
  from ray_loop_keeps [OF this] show ?thesis by simp
qed

lemma rays_keeps: "rays b loc ds moves = Inr ms \<Longrightarrow> set moves \<subseteq> set ms"
proof (induction ds arbitrary: moves)
  case Nil
  then show ?case by simp
next
  case (Cons d ds)
  from Cons.prems obtain m1 where
    m1: "ray_loop b (fst d) (snd d) (fst loc) (snd loc) moves = Inr m1"
    and rest: "rays b loc ds m1 = Inr ms"
    by (cases "ray_loop b (fst d) (snd d) (fst loc) (snd loc) moves") simp_all
  from ray_loop_keeps [OF m1] Cons.IH [OF rest] show ?case by blast
qed

lemma rays_neighbour:
  assumes "rays b loc ds moves = Inr ms" and "d \<in> set ds"
    and "(0 \<le> fst loc + fst d \<and> fst loc + fst d < columns b)
         \<and> (0 \<le> snd loc + snd d \<and> snd loc + snd d < rows b)"
    and "box_blocked b (fst loc + fst d) (snd loc + snd d) = Inr False"
  shows "(fst loc + fst d, snd loc + snd d) \<in> set ms"
  using assms(1,2)
proof (induction ds arbitrary: moves)
  case Nil
  then show ?case by simp
next
  case (Cons d' ds)
  from Cons.prems(1) obtain m1 where
    m1: "ray_loop b (fst d') (snd d') (fst loc) (snd loc) moves = Inr m1"
    and rest: "rays b loc ds m1 = Inr ms"
    by (cases "ray_loop b (fst d') (snd d') (fst loc) (snd loc) moves") simp_all
  show ?case
  proof (cases "d = d'")
    case True
    from ray_loop_first_step [OF m1 [folded True] assms(3,4)] rays_keeps [OF rest]
    show ?thesis by blast
  next
    case False
    with Cons.prems(2) have "d \<in> set ds" by simp
    from Cons.IH [OF rest this] show ?thesis .
  qed
qed

lemma wide_board_running: "is_game_over wide_board = Inr None"
proof -
  have full: "full_list wide_board"
    by (simp add: full_list_def wide_board_def)
  have p1: "players_position wide_board 1 = Some (Some (0, 0))"
    and p2: "players_position wide_board 2 = Some (Some (10000, 0))"
    by (simp_all add: wide_board_def)
  have g1: "in_grid wide_board (0, 0)" and g2: "in_grid wide_board (10000, 0)"
    by (simp_all add: in_grid_def wide_board_def)
  have cells: "(replicate 10001 (4::int))[0 := 17, 10000 := 18] ! 1 = 4"
    "(replicate 10001 (4::int))[0 := 17, 10000 := 18] ! 9999 = 4"
    by simp_all
  have f1: "box_blocked wide_board 1 0 = Inr False"
    and f2: "box_blocked wide_board 9999 0 = Inr False"
    using cells
    by (simp_all add: box_blocked_def py_index_def list_slot_def offset_def wide_board_def
          BOX_BLOCKED_MASK_def)
  from legal_moves_bound [OF full p1 g1] obtain am where
    am: "get_legal_moves wide_board (Some 1) = Inr am" by blast
  from legal_moves_bound [OF full p2 g2] obtain om where
    om: "get_legal_moves wide_board (Some 2) = Inr om" by blast
  from am p1 have ra: "rays wide_board (0, 0) dirs_deltas [] = Inr am"
    by (simp add: get_legal_moves_def dict_get_def)
  from om p2 have ro: "rays wide_board (10000, 0) dirs_deltas [] = Inr om"
    by (simp add: get_legal_moves_def dict_get_def)
  have "(1, 0) \<in> set am"
    using rays_neighbour [OF ra, of "(1, 0)"] f1
    by (simp add: dirs_deltas_def wide_board_def)
  moreover have "(9999, 0) \<in> set om"
    using rays_neighbour [OF ro, of "(- 1, 0)"] f2
    by (simp add: dirs_deltas_def wide_board_def)
  ultimately have "am \<noteq> []" and "om \<noteq> []" by auto
  with am om show ?thesis
    by (simp add: is_game_over_def wide_board_def)
qed

lemma inv_dist_range:
  assumes "players_position b p = Some (Some loc)" and "0 \<le> rows b * columns b"
    and "\<forall>d t. 1 \<le> d \<and> 0 \<le> t \<longrightarrow> 0 \<le> inv_scale d t \<and> inv_scale d t \<le> t"
  shows "\<exists>v. inv_dist_to_centre inv_scale b p = Inr v \<and> 0 \<le> v
             \<and> v \<le> rows b * columns b + 5"
proof -
  define dist where
    "dist = manhattan_distance (fst loc) (snd loc) (columns b div 2) (rows b div 2)"
  define total where "total = columns b * rows b"
  have t: "0 \<le> total" using assms(2) by (simp add: total_def mult.commute)
  have u: "unpack_pos b p = Inr loc"
    using assms(1) by (simp add: unpack_pos_def player_pos_def dict_get_def)
  show ?thesis
  proof (cases "dist \<le> 0")
    case True
    with u t show ?thesis
      by (simp add: inv_dist_to_centre_def Let_def dist_def total_def mult.commute)
  next
    case False
    then have "1 \<le> dist" by simp
    with assms(3) t have "0 \<le> inv_scale dist total \<and> inv_scale dist total \<le> total" by blast
    with u False show ?thesis
      by (simp add: inv_dist_to_centre_def Let_def dist_def total_def mult.commute)
  qed
qed

text \<open>
  C3, as the code has it.  On a board with \<open>rows * columns + 5 < MAX_SCORE\<close>
  whose list has one entry for each cell, with both players positioned inside the
  grid and the winner argument \<open>False\<close>, each of the four heuristics returns a
  value of magnitude below \<open>MAX_SCORE\<close>; for \<open>score_func1\<close> and
  \<open>score_func4\<close> this takes of \<open>int((1.0 / dist) * total)\<close> that it lies
  between 0 and \<open>total\<close> for \<open>dist >= 1\<close> and \<open>total >= 0\<close>.
\<close>

theorem heuristics_below_MAX_SCORE:
  assumes size: "rows b * columns b + 5 < MAX_SCORE"
    and cells: "int (length (board_list b)) = rows b * columns b"
    and pa: "players_position b (active_player b) = Some (Some pa)" "in_grid b pa"
    and po: "players_position b (inactive_player b) = Some (Some po)" "in_grid b po"
    and inv: "\<forall>d t. 1 \<le> d \<and> 0 \<le> t \<longrightarrow> 0 \<le> inv_scale d t \<and> inv_scale d t \<le> t"
  shows "(\<exists>s. score_func1 inv_scale b None player = Inr s \<and> \<bar>s\<bar> < MAX_SCORE)
       \<and> (\<exists>s. score_func2 b None player = Inr s \<and> \<bar>s\<bar> < MAX_SCORE)
       \<and> (\<exists>s. score_func3 b None player = Inr s \<and> \<bar>s\<bar> < MAX_SCORE)
       \<and> (\<exists>s. score_func4 inv_scale b None player = Inr s \<and> \<bar>s\<bar> < MAX_SCORE)"
proof (intro conjI)
  have full: "full_list b" using cells by (simp add: full_list_def)
  have r: "1 \<le> rows b" and c: "1 \<le> columns b"
    using pa(2) by (auto simp: in_grid_def)
  then have area: "0 \<le> rows b * columns b" by simp
  have "0 \<le> (rows b - 1) * (columns b - 1)" using r c by simp
  then have span: "rows b + columns b - 1 \<le> rows b * columns b"
    by (simp add: algebra_simps)
  have ua: "unpack_pos b (active_player b) = Inr pa"
    using pa(1) by (simp add: unpack_pos_def player_pos_def dict_get_def)
  have uo: "unpack_pos b (inactive_player b) = Inr po"
    using po(1) by (simp add: unpack_pos_def player_pos_def dict_get_def)
  define dist where "dist = manhattan_distance (fst pa) (snd pa) (fst po) (snd po)"
  have dist: "0 \<le> dist" "dist \<le> rows b + columns b - 2"
    using pa(2) po(2) by (auto simp: dist_def manhattan_distance_def in_grid_def)

  from inv_dist_range [OF pa(1) area inv] obtain a where
    a: "inv_dist_to_centre inv_scale b (active_player b) = Inr a" "0 \<le> a"
       "a \<le> rows b * columns b + 5" by blast
  from inv_dist_range [OF po(1) area inv] obtain o' where
    o': "inv_dist_to_centre inv_scale b (inactive_player b) = Inr o'" "0 \<le> o'"
       "o' \<le> rows b * columns b + 5" by blast
  from a o' size have "\<bar>a - o'\<bar> < MAX_SCORE" by linarith
  with a(1) o'(1) show "\<exists>s. score_func1 inv_scale b None player = Inr s \<and> \<bar>s\<bar> < MAX_SCORE"
    by (simp add: score_func1_def truthy_def)

  from legal_moves_bound [OF full pa] obtain am where
    am: "get_legal_moves b (Some (active_player b)) = Inr am"
        "int (length am) \<le> rows b * columns b - 1" by blast
  from legal_moves_bound [OF full po] obtain om where
    om: "get_legal_moves b (Some (inactive_player b)) = Inr om"
        "int (length om) \<le> rows b * columns b - 1" by blast
  from am(2) om(2) size have "\<bar>int (length am) - int (length om)\<bar> < MAX_SCORE" by linarith
  with am(1) om(1) show "\<exists>s. score_func2 b None player = Inr s \<and> \<bar>s\<bar> < MAX_SCORE"
    by (simp add: score_func2_def truthy_def)

  from dist span size have "\<bar>dist\<bar> < MAX_SCORE" by linarith
  with ua uo show "\<exists>s. score_func3 b None player = Inr s \<and> \<bar>s\<bar> < MAX_SCORE"
    by (simp add: score_func3_def truthy_def dist_def)

  show "\<exists>s. score_func4 inv_scale b None player = Inr s \<and> \<bar>s\<bar> < MAX_SCORE"
  proof (cases "dist \<le> 0")
    case True
    with ua uo area size show ?thesis
      by (simp add: score_func4_def truthy_def dist_def Let_def mult.commute)
  next
    case False
    then have "1 \<le> dist" by simp
    with inv area have "0 \<le> inv_scale dist (columns b * rows b)
        \<and> inv_scale dist (columns b * rows b) \<le> columns b * rows b"
      by (simp add: mult.commute)
    with size have "\<bar>inv_scale dist (columns b * rows b)\<bar> < MAX_SCORE"
      by (simp add: mult.commute)
    with ua uo False show ?thesis
      by (simp add: score_func4_def truthy_def dist_def Let_def)
  qed
qed

text \<open>
  C3 as stated fails on large boards: on \<open>wide_board\<close>, which is still in play,
  \<open>score_func3\<close> returns the distance 10000 between the players.
\<close>

theorem heuristic_reaches_MAX_SCORE_counterexample:
  "players_position wide_board 1 = Some (Some (0, 0))
   \<and> players_position wide_board 2 = Some (Some (10000, 0))
   \<and> is_game_over wide_board = Inr None
   \<and> score_func3 wide_board None 1 = Inr 10000
   \<and> \<not> \<bar>10000\<bar> < MAX_SCORE"
  using wide_board_running
  by (simp add: wide_board_def score_func3_def truthy_def unpack_pos_def player_pos_def
        dict_get_def manhattan_distance_def MAX_SCORE_def)

theorem heuristics_below_MAX_SCORE_witness:
  "rows corner_board * columns corner_board + 5 < MAX_SCORE
   \<and> int (length (board_list corner_board)) = rows corner_board * columns corner_board
   \<and> players_position corner_board (active_player corner_board) = Some (Some (0, 0))
   \<and> in_grid corner_board (0, 0)
   \<and> players_position corner_board (inactive_player corner_board) = Some (Some (1, 0))
   \<and> in_grid corner_board (1, 0)
   \<and> (\<exists>s. score_func1 (\<lambda>d t. t div d) corner_board None 1 = Inr s \<and> \<bar>s\<bar> < MAX_SCORE)
   \<and> (\<exists>s. score_func2 corner_board None 1 = Inr s \<and> \<bar>s\<bar> < MAX_SCORE)
   \<and> (\<exists>s. score_func3 corner_board None 1 = Inr s \<and> \<bar>s\<bar> < MAX_SCORE)
   \<and> (\<exists>s. score_func4 (\<lambda>d t. t div d) corner_board None 1 = Inr s \<and> \<bar>s\<bar> < MAX_SCORE)"
proof -
  have size: "rows corner_board * columns corner_board + 5 < MAX_SCORE"
    by (simp add: corner_board_def MAX_SCORE_def)
  have cells: "int (length (board_list corner_board)) = rows corner_board * columns corner_board"
    by (simp add: corner_board_def)
  have pa: "players_position corner_board (active_player corner_board) = Some (Some (0, 0))"
    "in_grid corner_board (0, 0)"
    by (simp_all add: corner_board_def in_grid_def)
  have po: "players_position corner_board (inactive_player corner_board) = Some (Some (1, 0))"
    "in_grid corner_board (1, 0)"
    by (simp_all add: corner_board_def in_grid_def)
  have inv: "\<forall>d t. 1 \<le> d \<and> 0 \<le> t \<longrightarrow> 0 \<le> t div d \<and> t div d \<le> (t::int)"
  proof (intro allI impI)
    fix d t :: int
    assume h: "1 \<le> d \<and> 0 \<le> t"
    then have "0 \<le> t div d" by (simp add: pos_imp_zdiv_nonneg_iff)
    moreover from h have "t div d \<le> t div 1" by (intro zdiv_mono2) simp_all
    ultimately show "0 \<le> t div d \<and> t div d \<le> t" by simp
  qed
  from heuristics_below_MAX_SCORE [OF size cells pa po inv, of 1] size cells pa po
  show ?thesis by blast
qed


end
